theory Spec2Isabelle
  imports Main "HOL-Library.Sublist"
begin

section \<open>Python values, exceptions and the tool context\<close>

text \<open>
  The session state of the workflow maps string keys to Python values. The values that can
  reach \<open>append_to_state\<close> are whatever an earlier tool call or the host stored under the
  key; the list concatenation \<open>existing_state + [response]\<close> succeeds on a list and raises
  \<open>TypeError\<close> on every other left operand modelled here.
\<close>

datatype pyval =
    VNone
  | VBool bool
  | VInt int
  | VStr string
  | VList "pyval list"

datatype error =
    TypeError
  | FileNotFoundError
  | FileExistsError
  | NotADirectoryError
  | IsADirectoryError
  | PermissionError
  | ValueError

type_synonym store = "string \<rightharpoonup> pyval"

text \<open>The dictionaries \<open>dict[str, str]\<close> returned by the tools, in insertion order.\<close>

type_synonym result = "(string \<times> string) list"

text \<open>
  \<open>ToolContext\<close>: the session state, and the attribute \<open>exit_loop\<close> that the tool of the
  same name assigns (\<open>False\<close> stands for the attribute not having been assigned).
\<close>

record tool_context =
  state :: store
  exit_loop_attr :: bool

text \<open>\<open>tool_context.state.get(field, [])\<close>\<close>

definition state_get :: "store \<Rightarrow> string \<Rightarrow> pyval \<Rightarrow> pyval" where
  "state_get st field dflt = (case st field of None \<Rightarrow> dflt | Some v \<Rightarrow> v)"

text \<open>\<open>v + [..]\<close>: Python's \<open>+\<close> with a list as the right operand.\<close>

fun py_add_list :: "pyval \<Rightarrow> pyval list \<Rightarrow> error + pyval" where
  "py_add_list (VList xs) ys = Inr (VList (xs @ ys))"
| "py_add_list _ ys = Inl TypeError"

text \<open>
  \<open>append_to_state\<close>. The concatenation is evaluated before the assignment, so a raise
  leaves the context as it was. The \<open>logging.info\<close> line writes to the process log only and
  is not part of the model.
\<close>

definition append_to_state ::
  "tool_context \<Rightarrow> string \<Rightarrow> string \<Rightarrow> (error + result) \<times> tool_context" where
  "append_to_state tc field response =
     (let existing_state = state_get (state tc) field (VList [])
      in case py_add_list existing_state [VStr response] of
           Inl e \<Rightarrow> (Inl e, tc)
         | Inr v \<Rightarrow> (Inr [(''status'', ''success'')], tc\<lparr>state := (state tc)(field \<mapsto> v)\<rparr>))"

text \<open>\<open>exit_loop\<close>: assigns the attribute and reports.\<close>

definition exit_loop :: "tool_context \<Rightarrow> result \<times> tool_context" where
  "exit_loop tc = ([(''status'', ''exited loop'')], tc\<lparr>exit_loop_attr := True\<rparr>)"

section \<open>Paths: \<open>posixpath.join\<close>, \<open>dirname\<close> and \<open>split\<close>\<close>

definition sep :: char where
  "sep = CHR ''/''"

text \<open>\<open>p.rfind(sep) + 1\<close>: the length of the longest prefix that ends with a separator.\<close>

fun rfind_sep_plus1 :: "string \<Rightarrow> nat" where
  "rfind_sep_plus1 [] = 0"
| "rfind_sep_plus1 (c # cs) =
     (case rfind_sep_plus1 cs of
        0 \<Rightarrow> (if c = sep then 1 else 0)
      | Suc i \<Rightarrow> Suc (Suc i))"

text \<open>\<open>head.rstrip(sep)\<close>\<close>

definition rstrip_sep :: "string \<Rightarrow> string" where
  "rstrip_sep s = rev (dropWhile (\<lambda>c. c = sep) (rev s))"

text \<open>\<open>posixpath.split\<close>\<close>

definition os_path_split :: "string \<Rightarrow> string \<times> string" where
  "os_path_split p =
     (let i = rfind_sep_plus1 p;
          head = take i p;
          tail = drop i p
      in (if head \<noteq> [] \<and> head \<noteq> replicate (length head) sep then rstrip_sep head else head,
          tail))"

text \<open>\<open>posixpath.dirname\<close>\<close>

definition os_path_dirname :: "string \<Rightarrow> string" where
  "os_path_dirname p =
     (let i = rfind_sep_plus1 p;
          head = take i p
      in if head \<noteq> [] \<and> head \<noteq> replicate (length head) sep then rstrip_sep head else head)"

text \<open>\<open>posixpath.join\<close> with one component after the first.\<close>

definition os_path_join :: "string \<Rightarrow> string \<Rightarrow> string" where
  "os_path_join a b =
     (if b \<noteq> [] \<and> hd b = sep then b
      else if a = [] \<or> last a = sep then a @ b
      else a @ [sep] @ b)"

section \<open>The file system seen by \<open>os.makedirs\<close> and \<open>open\<close>\<close>

text \<open>
  A POSIX tree without links: a node is a directory or a regular file with its content, and
  is addressed by the list of names leading to it from the root (the root \<open>[]\<close> is always a
  directory). \<open>writable\<close> says whether the process may create entries in a directory or
  open a file for writing; search permission, quotas and encodings are outside the model.
\<close>

datatype node = Dir | File string

type_synonym path = "string list"

record fsys =
  nodes :: "path \<rightharpoonup> node"
  cwd :: path
  writable :: "path \<Rightarrow> bool"

definition lookup :: "fsys \<Rightarrow> path \<Rightarrow> node option" where
  "lookup fs p = (if p = [] then Some Dir else nodes fs p)"

fun split_sep :: "string \<Rightarrow> string list" where
  "split_sep [] = [[]]"
| "split_sep (c # cs) =
     (if c = sep then [] # split_sep cs
      else case split_sep cs of
             [] \<Rightarrow> [[c]]
           | x # xs \<Rightarrow> (c # x) # xs)"

text \<open>The names of a path string; empty names (repeated or trailing separators) drop out.\<close>

definition components :: "string \<Rightarrow> string list" where
  "components p = filter (\<lambda>c. c \<noteq> []) (split_sep p)"

definition is_abs :: "string \<Rightarrow> bool" where
  "is_abs p = (p \<noteq> [] \<and> hd p = sep)"

definition ends_with_sep :: "string \<Rightarrow> bool" where
  "ends_with_sep p = (p \<noteq> [] \<and> last p = sep)"

definition start :: "fsys \<Rightarrow> string \<Rightarrow> path" where
  "start fs p = (if is_abs p then [] else cwd fs)"

text \<open>Path resolution through directories: every name on the way must be a directory.\<close>

fun walk :: "fsys \<Rightarrow> path \<Rightarrow> string list \<Rightarrow> error + path" where
  "walk fs cur [] = Inr cur"
| "walk fs cur (c # cs) =
     (if c = ''.'' then walk fs cur cs
      else if c = ''..'' then walk fs (butlast cur) cs
      else case lookup fs (cur @ [c]) of
             None \<Rightarrow> Inl FileNotFoundError
           | Some (File _) \<Rightarrow> Inl NotADirectoryError
           | Some Dir \<Rightarrow> walk fs (cur @ [c]) cs)"

definition stat :: "fsys \<Rightarrow> string \<Rightarrow> error + path \<times> node" where
  "stat fs p =
     (if CHR 0x00 \<in> set p then Inl ValueError
      else if p = [] then Inl FileNotFoundError
      else let cs = components p in
        if cs = [] then Inr ([], Dir)
        else case walk fs (start fs p) (butlast cs) of
               Inl e \<Rightarrow> Inl e
             | Inr d \<Rightarrow>
                 let l = last cs in
                 if l = ''.'' then Inr (d, Dir)
                 else if l = ''..'' then Inr (butlast d, Dir)
                 else case lookup fs (d @ [l]) of
                        None \<Rightarrow> Inl FileNotFoundError
                      | Some Dir \<Rightarrow> Inr (d @ [l], Dir)
                      | Some (File c) \<Rightarrow>
                          if ends_with_sep p then Inl NotADirectoryError
                          else Inr (d @ [l], File c))"

text \<open>\<open>os.path.exists\<close> and \<open>os.path.isdir\<close>: \<open>False\<close> on every error of \<open>stat\<close>.\<close>

definition os_path_exists :: "fsys \<Rightarrow> string \<Rightarrow> bool" where
  "os_path_exists fs p = (case stat fs p of Inl _ \<Rightarrow> False | Inr _ \<Rightarrow> True)"

definition os_path_isdir :: "fsys \<Rightarrow> string \<Rightarrow> bool" where
  "os_path_isdir fs p = (case stat fs p of Inr (_, Dir) \<Rightarrow> True | _ \<Rightarrow> False)"

text \<open>\<open>os.mkdir\<close>: the raised exception, if any, and the file system afterwards.\<close>

definition os_mkdir :: "string \<Rightarrow> fsys \<Rightarrow> error option \<times> fsys" where
  "os_mkdir p fs =
     (if CHR 0x00 \<in> set p then (Some ValueError, fs)
      else if p = [] then (Some FileNotFoundError, fs)
      else let cs = components p in
        if cs = [] then (Some FileExistsError, fs)
        else case walk fs (start fs p) (butlast cs) of
               Inl e \<Rightarrow> (Some e, fs)
             | Inr d \<Rightarrow>
                 let l = last cs in
                 if l = ''.'' \<or> l = ''..'' then (Some FileExistsError, fs)
                 else if lookup fs (d @ [l]) \<noteq> None then (Some FileExistsError, fs)
                 else if \<not> writable fs d then (Some PermissionError, fs)
                 else (None, fs\<lparr>nodes := (nodes fs)(d @ [l] \<mapsto> Dir),
                                 writable := (writable fs)(d @ [l] := True)\<rparr>))"

text \<open>
  The last step of \<open>os.makedirs\<close>:
  \<^verbatim>\<open>
    try: mkdir(name, mode)
    except OSError:
        if not exist_ok or not path.isdir(name): raise
  \<close>
  \<open>ValueError\<close> is not an \<open>OSError\<close> and is raised as it is.
\<close>

definition mkdir_leaf :: "string \<Rightarrow> bool \<Rightarrow> fsys \<Rightarrow> error option \<times> fsys" where
  "mkdir_leaf name exist_ok fs =
     (case os_mkdir name fs of
        (None, fs') \<Rightarrow> (None, fs')
      | (Some e, fs') \<Rightarrow>
          if e = ValueError \<or> \<not> exist_ok \<or> \<not> os_path_isdir fs' name then (Some e, fs')
          else (None, fs'))"

text \<open>
  The first lines of \<open>os.makedirs\<close>:
  \<^verbatim>\<open>
    head, tail = path.split(name)
    if not tail: head, tail = path.split(head)
  \<close>
\<close>

definition head_tail :: "string \<Rightarrow> string \<times> string" where
  "head_tail name =
     (let (head, tail) = os_path_split name
      in if tail = [] then os_path_split head else (head, tail))"

lemma rfind_sep_plus1_le: "rfind_sep_plus1 p \<le> length p"
  by (induction p) (auto split: nat.splits)

lemma length_rstrip_sep: "length (rstrip_sep s) \<le> length s"
  unfolding rstrip_sep_def using length_dropWhile_le[of "\<lambda>c. c = sep" "rev s"] by simp

lemma split_head_le: "length (fst (os_path_split p)) \<le> length p"
  using length_rstrip_sep[of "take (rfind_sep_plus1 p) p"]
  by (auto simp: os_path_split_def Let_def)

lemma split_head_less:
  "snd (os_path_split p) \<noteq> [] \<Longrightarrow> length (fst (os_path_split p)) < length p"
  using length_rstrip_sep[of "take (rfind_sep_plus1 p) p"]
  by (auto simp: os_path_split_def Let_def min_def split: if_splits)

lemma head_tail_less:
  "snd (head_tail name) \<noteq> [] \<Longrightarrow> length (fst (head_tail name)) < length name"
  using split_head_less[of name] split_head_less[of "fst (os_path_split name)"]
        split_head_le[of name]
  by (auto simp: head_tail_def Let_def split: prod.splits if_splits)

text \<open>
  \<open>os.makedirs(name, exist_ok=exist_ok)\<close>: the missing ancestors are made first; a
  \<open>FileExistsError\<close> of that recursive call is passed over, every other exception is raised.
\<close>

function os_makedirs :: "string \<Rightarrow> bool \<Rightarrow> fsys \<Rightarrow> error option \<times> fsys" where
  "os_makedirs name exist_ok fs =
     (let head = fst (head_tail name); tail = snd (head_tail name)
      in if head \<noteq> [] \<and> tail \<noteq> [] \<and> \<not> os_path_exists fs head then
           (case os_makedirs head exist_ok fs of
              (Some e, fs1) \<Rightarrow>
                if e = FileExistsError then
                  (if tail = ''.'' then (None, fs1) else mkdir_leaf name exist_ok fs1)
                else (Some e, fs1)
            | (None, fs1) \<Rightarrow>
                if tail = ''.'' then (None, fs1) else mkdir_leaf name exist_ok fs1)
         else mkdir_leaf name exist_ok fs)"
  by pat_completeness auto
termination
  by (relation "measure (\<lambda>(name, exist_ok, fs). length name)") (auto simp: head_tail_less)

declare os_makedirs.simps [simp del]

text \<open>
  \<open>with open(target_path, "w") as f: f.write(content)\<close>: the file is created or truncated
  and then holds the content.
\<close>

definition open_w_write :: "string \<Rightarrow> string \<Rightarrow> fsys \<Rightarrow> error option \<times> fsys" where
  "open_w_write p content fs =
     (if CHR 0x00 \<in> set p then (Some ValueError, fs)
      else if p = [] then (Some FileNotFoundError, fs)
      else let cs = components p in
        if cs = [] then (Some IsADirectoryError, fs)
        else case walk fs (start fs p) (butlast cs) of
               Inl e \<Rightarrow> (Some e, fs)
             | Inr d \<Rightarrow>
                 let l = last cs in
                 if ends_with_sep p \<or> l = ''.'' \<or> l = ''..'' then (Some IsADirectoryError, fs)
                 else case lookup fs (d @ [l]) of
                        Some Dir \<Rightarrow> (Some IsADirectoryError, fs)
                      | Some (File _) \<Rightarrow>
                          if writable fs (d @ [l])
                          then (None, fs\<lparr>nodes := (nodes fs)(d @ [l] \<mapsto> File content)\<rparr>)
                          else (Some PermissionError, fs)
                      | None \<Rightarrow>
                          if writable fs d
                          then (None, fs\<lparr>nodes := (nodes fs)(d @ [l] \<mapsto> File content),
                                          writable := (writable fs)(d @ [l] := True)\<rparr>)
                          else (Some PermissionError, fs))"

section \<open>The file-write tool\<close>

text \<open>
  \<open>write_file\<close>. An exception of \<open>os.makedirs\<close> or of \<open>open\<close> is not caught: it leaves the
  function, with the file system as the failing call left it.
\<close>

definition write_file ::
  "tool_context \<Rightarrow> string \<Rightarrow> string \<Rightarrow> string \<Rightarrow> fsys \<Rightarrow> (error + result) \<times> fsys" where
  "write_file tc directory filename content fs =
     (let target_path = os_path_join directory filename
      in case os_makedirs (os_path_dirname target_path) True fs of
           (Some e, fs1) \<Rightarrow> (Inl e, fs1)
         | (None, fs1) \<Rightarrow>
             (case open_w_write target_path content fs1 of
                (Some e, fs2) \<Rightarrow> (Inl e, fs2)
              | (None, fs2) \<Rightarrow> (Inr [(''status'', ''success'')], fs2)))"

section \<open>The agents of the workflow\<close>

text \<open>
  The module builds a tree of agents. Of an agent the model keeps its name, the
  \<open>retry_options\<close> of its \<open>Gemini\<close> model, its tools and its sub-agents; a loop also has
  \<open>max_iterations\<close>. Descriptions, instruction texts and the model name read from the
  environment are prompt material and are left out.
\<close>

datatype tool = Tool_wikipedia | Tool_append_to_state | Tool_write_file | Tool_exit_loop

record retry_options =
  initial_delay :: int
  attempts :: int

datatype agent =
    LlmAgent string retry_options "tool list" "agent list"
  | SequentialAgent string "agent list"
  | ParallelAgent string "agent list"
  | LoopAgent string "agent list" nat

definition admirer_researcher :: agent where
  "admirer_researcher =
     LlmAgent ''admirer_researcher'' \<lparr>initial_delay = 1, attempts = 2\<rparr>
       [Tool_wikipedia, Tool_append_to_state] []"

definition critic_researcher :: agent where
  "critic_researcher =
     LlmAgent ''critic_researcher'' \<lparr>initial_delay = 1, attempts = 2\<rparr>
       [Tool_wikipedia, Tool_append_to_state] []"

definition investigation_team :: agent where
  "investigation_team =
     ParallelAgent ''investigation_team'' [admirer_researcher, critic_researcher]"

definition judge :: agent where
  "judge = LlmAgent ''judge'' \<lparr>initial_delay = 1, attempts = 2\<rparr> [Tool_exit_loop] []"

definition trial_and_review :: agent where
  "trial_and_review = LoopAgent ''trial_and_review'' [investigation_team, judge] 3"

definition verdict_writer :: agent where
  "verdict_writer =
     LlmAgent ''verdict_writer'' \<lparr>initial_delay = 1, attempts = 2\<rparr> [Tool_write_file] []"

definition historical_court :: agent where
  "historical_court = SequentialAgent ''historical_court'' [trial_and_review, verdict_writer]"

definition root_agent :: agent where
  "root_agent =
     LlmAgent ''inquiry_clerk'' \<lparr>initial_delay = 1, attempts = 2\<rparr>
       [Tool_append_to_state] [historical_court]"

text \<open>Reading the tree: fields of an agent, and the reasoning-backed agents below it.\<close>

fun agent_name :: "agent \<Rightarrow> string" where
  "agent_name (LlmAgent n r ts subs) = n"
| "agent_name (SequentialAgent n subs) = n"
| "agent_name (ParallelAgent n subs) = n"
| "agent_name (LoopAgent n subs m) = n"

fun sub_agents :: "agent \<Rightarrow> agent list" where
  "sub_agents (LlmAgent n r ts subs) = subs"
| "sub_agents (SequentialAgent n subs) = subs"
| "sub_agents (ParallelAgent n subs) = subs"
| "sub_agents (LoopAgent n subs m) = subs"

fun tools :: "agent \<Rightarrow> tool list" where
  "tools (LlmAgent n r ts subs) = ts"
| "tools _ = []"

fun max_iterations :: "agent \<Rightarrow> nat option" where
  "max_iterations (LoopAgent n subs m) = Some m"
| "max_iterations _ = None"

fun llm_agents :: "agent \<Rightarrow> (string \<times> retry_options \<times> tool list) list" where
  "llm_agents (LlmAgent n r ts subs) = (n, r, ts) # concat (map llm_agents subs)"
| "llm_agents (SequentialAgent n subs) = concat (map llm_agents subs)"
| "llm_agents (ParallelAgent n subs) = concat (map llm_agents subs)"
| "llm_agents (LoopAgent n subs m) = concat (map llm_agents subs)"

definition holders :: "tool \<Rightarrow> agent \<Rightarrow> string list" where
  "holders t a = map fst (filter (\<lambda>(n, r, ts). t \<in> set ts) (llm_agents a))"

section \<open>Running the tree\<close>

text \<open>
  Modelled from the spec: the runner of the agent tree. The classes \<open>Agent\<close>,
  \<open>SequentialAgent\<close>, \<open>ParallelAgent\<close> and \<open>LoopAgent\<close> are imported from a library
  and their code is not part of this module; the definitions of this section follow
  sections 4.2 to 4.7 and 7 of the specification.

  The reasoning backend is an oracle: at each attempt it fails or answers with the tool
  calls the agent makes and with whether the agent hands over to its sub-agents. A theorem
  for every oracle is a theorem for every behaviour of the backend.
\<close>

datatype call =
    Call_wikipedia string
  | Call_append_to_state string string
  | Call_write_file string string string
  | Call_exit_loop

fun tool_of :: "call \<Rightarrow> tool" where
  "tool_of (Call_wikipedia q) = Tool_wikipedia"
| "tool_of (Call_append_to_state field response) = Tool_append_to_state"
| "tool_of (Call_write_file directory filename content) = Tool_write_file"
| "tool_of Call_exit_loop = Tool_exit_loop"

datatype reasoning = ReasoningFailed | Acts "call list" bool

type_synonym backend = "nat \<Rightarrow> reasoning"

datatype outcome = Completed | FatalRunFailure

datatype event = AgentFailed string | ToolCall string call

text \<open>
  Modelled from the spec: the execution context of a run. \<open>escalate\<close> is the loop
  control signal of section 3, the flag a loop composite reads after an iteration. It
  belongs to the library; no tool of the module assigns it.
\<close>

record world =
  ctx :: tool_context
  files :: fsys
  clock :: nat
  escalate :: bool

text \<open>
  Modelled from the spec: the invocation of a capability, which the library performs. It
  runs the tool of the module on the shared context and the file
  system. A capability failure (a raised exception) is handed back to the agent and does
  not stop the run (section 7 (b)); the external query changes neither store nor files.
\<close>

fun perform :: "call \<Rightarrow> world \<Rightarrow> world" where
  "perform (Call_wikipedia q) w = w"
| "perform (Call_append_to_state field response) w =
     w\<lparr>ctx := snd (append_to_state (ctx w) field response)\<rparr>"
| "perform (Call_write_file directory filename content) w =
     w\<lparr>files := snd (write_file (ctx w) directory filename content (files w))\<rparr>"
| "perform Call_exit_loop w = w\<lparr>ctx := snd (exit_loop (ctx w))\<rparr>"

text \<open>
  Modelled from the spec: the tool calls of one agent turn, made by the library. An agent
  can invoke only the capabilities it holds; other calls are not performed.
\<close>

fun run_calls :: "string \<Rightarrow> tool list \<Rightarrow> call list \<Rightarrow> world \<Rightarrow> world \<times> event list" where
  "run_calls n ts [] w = (w, [])"
| "run_calls n ts (c # cs) w =
     (if tool_of c \<in> set ts
      then (case run_calls n ts cs (perform c w) of (w', ev) \<Rightarrow> (w', ToolCall n c # ev))
      else run_calls n ts cs w)"

text \<open>
  Modelled from the spec: the retry policy of the library's model wrapper (section 4.2). A
  failed reasoning call is retried until the configured number of attempts
  is used up. Each attempt advances the clock that indexes the oracle.
\<close>

fun attempt :: "backend \<Rightarrow> nat \<Rightarrow> nat \<Rightarrow> reasoning \<times> nat" where
  "attempt orc 0 t = (ReasoningFailed, t)"
| "attempt orc (Suc k) t =
     (case orc t of
        ReasoningFailed \<Rightarrow> attempt orc k (Suc t)
      | Acts cs hand \<Rightarrow> (Acts cs hand, Suc t))"

text \<open>
  Modelled from the spec: the library's execution of an agent, a sequence, a parallel
  composite and a loop (sections 4.3 to 4.5 and 4.7). A sequence stops at the first fatal
  child. The children of a
  parallel composite are all run, here one after the other in the declared order, and the
  composite is fatal when one of them is; interleavings of their tool calls are not
  modelled. A loop runs its child sequence, then reads the control signal \<open>escalate\<close>,
  and goes on only if the signal is not set and iterations remain; it returns one event
  list for each iteration it ran. The attribute \<open>exit_loop\<close> that the tool of the module
  assigns on the tool context is not what the loop reads.
\<close>

function run :: "backend \<Rightarrow> agent \<Rightarrow> world \<Rightarrow> outcome \<times> world \<times> event list"
  and run_seq :: "backend \<Rightarrow> agent list \<Rightarrow> world \<Rightarrow> outcome \<times> world \<times> event list"
  and run_par :: "backend \<Rightarrow> agent list \<Rightarrow> world \<Rightarrow> outcome \<times> world \<times> event list"
  and run_loop ::
    "backend \<Rightarrow> agent list \<Rightarrow> nat \<Rightarrow> world \<Rightarrow> outcome \<times> world \<times> event list list"
where
  "run orc (LlmAgent n r ts subs) w =
     (case attempt orc (nat (attempts r)) (clock w) of
        (ReasoningFailed, t) \<Rightarrow> (FatalRunFailure, w\<lparr>clock := t\<rparr>, [AgentFailed n])
      | (Acts cs hand, t) \<Rightarrow>
          (case run_calls n ts cs (w\<lparr>clock := t\<rparr>) of
             (w1, ev) \<Rightarrow>
               if hand
               then (case run_seq orc subs w1 of (out, w2, ev2) \<Rightarrow> (out, w2, ev @ ev2))
               else (Completed, w1, ev)))"
| "run orc (SequentialAgent n subs) w = run_seq orc subs w"
| "run orc (ParallelAgent n subs) w = run_par orc subs w"
| "run orc (LoopAgent n subs m) w =
     (case run_loop orc subs m w of (out, w', iters) \<Rightarrow> (out, w', concat iters))"
| "run_seq orc [] w = (Completed, w, [])"
| "run_seq orc (a # as) w =
     (case run orc a w of
        (FatalRunFailure, w1, ev) \<Rightarrow> (FatalRunFailure, w1, ev)
      | (Completed, w1, ev) \<Rightarrow>
          (case run_seq orc as w1 of (out, w2, ev2) \<Rightarrow> (out, w2, ev @ ev2)))"
| "run_par orc [] w = (Completed, w, [])"
| "run_par orc (a # as) w =
     (case run orc a w of
        (out1, w1, ev) \<Rightarrow>
          (case run_par orc as w1 of
             (out2, w2, ev2) \<Rightarrow>
               (if out1 = FatalRunFailure then FatalRunFailure else out2, w2, ev @ ev2)))"
| "run_loop orc subs 0 w = (Completed, w, [])"
| "run_loop orc subs (Suc k) w =
     (case run_seq orc subs w of
        (FatalRunFailure, w1, ev) \<Rightarrow> (FatalRunFailure, w1, [ev])
      | (Completed, w1, ev) \<Rightarrow>
          if escalate w1 then (Completed, w1, [ev])
          else (case run_loop orc subs k w1 of (out, w2, evs) \<Rightarrow> (out, w2, ev # evs)))"
  by pat_completeness auto
termination
  by (relation "inv_image (less_than <*lex*> less_than)
        (\<lambda>x. case x of
           Inl (Inl (orc, a, w)) \<Rightarrow> (size a, 0)
         | Inl (Inr (orc, as, w)) \<Rightarrow> (size_list size as, 0)
         | Inr (Inl (orc, as, w)) \<Rightarrow> (size_list size as, 0)
         | Inr (Inr (orc, as, k, w)) \<Rightarrow> (size_list size as, Suc k))")
     auto


section \<open>Reading a run\<close>

text \<open>The tools held somewhere in a tree.\<close>

definition held :: "agent \<Rightarrow> tool set" where
  "held a = (\<Union>(n, r, ts) \<in> set (llm_agents a). set ts)"

text \<open>Events name an agent of the tree, and a performed call uses a tool that agent holds.\<close>

fun event_of :: "(string \<times> retry_options \<times> tool list) list \<Rightarrow> event \<Rightarrow> bool" where
  "event_of ags (AgentFailed n) = (n \<in> fst ` set ags)"
| "event_of ags (ToolCall n c) = (\<exists>(n', r, ts) \<in> set ags. n' = n \<and> tool_of c \<in> set ts)"

text \<open>The iterations a loop agent runs from a world: one event list for each.\<close>

fun iterations :: "backend \<Rightarrow> agent \<Rightarrow> world \<Rightarrow> event list list" where
  "iterations orc (LoopAgent n subs m) w = snd (snd (run_loop orc subs m w))"
| "iterations orc _ w = []"

text \<open>
  The start of a run (section 3 of the specification): an empty store, no exit attribute
  and no control signal set, and here an empty, writable file system with the root as
  working directory.
\<close>

definition initial_world :: world where
  "initial_world =
     \<lparr>ctx = \<lparr>state = Map.empty, exit_loop_attr = False\<rparr>,
      files = \<lparr>nodes = Map.empty, cwd = [], writable = (\<lambda>p. True)\<rparr>,
      clock = 0,
      escalate = False\<rparr>"

section \<open>Properties of the append tool\<close>

lemma append_to_state_absent:
  "state tc field = None \<Longrightarrow>
   append_to_state tc field response =
     (Inr [(''status'', ''success'')], tc\<lparr>state := (state tc)(field \<mapsto> VList [VStr response])\<rparr>)"
  by (simp add: append_to_state_def state_get_def)

lemma append_to_state_list:
  "state tc field = Some (VList xs) \<Longrightarrow>
   append_to_state tc field response =
     (Inr [(''status'', ''success'')],
      tc\<lparr>state := (state tc)(field \<mapsto> VList (xs @ [VStr response]))\<rparr>)"
  by (simp add: append_to_state_def state_get_def)

lemma append_to_state_not_list:
  "state tc field = Some v \<Longrightarrow> \<forall>xs. v \<noteq> VList xs \<Longrightarrow>
   append_to_state tc field response = (Inl TypeError, tc)"
  by (cases v) (simp_all add: append_to_state_def state_get_def)

lemma append_to_state_returns_list:
  assumes "fst (append_to_state tc field response) = Inr r"
  shows "\<exists>ys. state (snd (append_to_state tc field response)) field = Some (VList ys)"
proof (cases "state tc field")
  case None
  then show ?thesis by (simp add: append_to_state_absent)
next
  case (Some v)
  show ?thesis
  proof (cases "\<exists>xs. v = VList xs")
    case True
    with Some show ?thesis by (auto simp: append_to_state_list)
  next
    case False
    with Some assms show ?thesis by (simp add: append_to_state_not_list)
  qed
qed

section \<open>Properties of paths and of the file system\<close>

lemma rfind_sep_plus1_decomp:
  "\<exists>h t. p = h @ t \<and> rfind_sep_plus1 p = length h \<and> sep \<notin> set t \<and> (h = [] \<or> last h = sep)"
proof (induction p)
  case Nil
  show ?case by simp
next
  case (Cons c cs)
  then obtain h t where ht: "cs = h @ t" "rfind_sep_plus1 cs = length h" "sep \<notin> set t"
    "h = [] \<or> last h = sep" by blast
  show ?case
  proof (cases "h = []")
    case False
    with ht have "c # cs = (c # h) @ t \<and> rfind_sep_plus1 (c # cs) = length (c # h)
                  \<and> sep \<notin> set t \<and> last (c # h) = sep"
      by (auto split: nat.splits)
    then show ?thesis by blast
  next
    case True
    show ?thesis
    proof (cases "c = sep")
      case True
      with ht \<open>h = []\<close>
      have "c # cs = [c] @ t \<and> rfind_sep_plus1 (c # cs) = length [c]
            \<and> sep \<notin> set t \<and> last [c] = sep"
        by (auto split: nat.splits)
      then show ?thesis by blast
    next
      case False
      with ht \<open>h = []\<close>
      have "c # cs = [] @ (c # cs) \<and> rfind_sep_plus1 (c # cs) = length ([]::string)
            \<and> sep \<notin> set (c # cs)"
        by (auto split: nat.splits)
      then show ?thesis by blast
    qed
  qed
qed

lemma split_sep_nonempty: "split_sep p \<noteq> []"
  by (induction p) (auto split: list.splits)

lemma split_sep_no_sep: "sep \<notin> set t \<Longrightarrow> split_sep t = [t]"
  by (induction t) auto

lemma split_sep_append_sep:
  "split_sep (xs @ sep # ys) = split_sep xs @ split_sep ys"
proof (induction xs)
  case Nil
  show ?case by simp
next
  case (Cons x xs)
  then show ?case
    using split_sep_nonempty[of xs] split_sep_nonempty[of "xs @ sep # ys"]
    by (cases "split_sep xs") auto
qed

lemma components_snoc_sep: "components (xs @ [sep]) = components xs"
  using split_sep_append_sep[of xs "[]"] by (simp add: components_def)

lemma components_head_tail:
  assumes "h = [] \<or> last h = sep" and "sep \<notin> set t" and "t \<noteq> []"
  shows "components (h @ t) = components h @ [t]"
proof (cases "h = []")
  case True
  with assms show ?thesis by (simp add: components_def split_sep_no_sep)
next
  case False
  with assms(1) obtain h0 where h: "h = h0 @ [sep]"
    by (metis append_butlast_last_id)
  have "components (h @ t) = filter (\<lambda>c. c \<noteq> []) (split_sep h0 @ split_sep t)"
    using split_sep_append_sep[of h0 t] by (simp add: h components_def)
  also have "\<dots> = components h0 @ [t]"
    using assms by (simp add: components_def split_sep_no_sep)
  finally show ?thesis by (simp add: h components_snoc_sep)
qed

lemma rstrip_sep_snoc:
  "rstrip_sep (xs @ [x]) = (if x = sep then rstrip_sep xs else xs @ [x])"
  by (simp add: rstrip_sep_def)

lemma components_rstrip_sep: "components (rstrip_sep h) = components h"
  by (induction h rule: rev_induct) (simp_all add: rstrip_sep_def components_snoc_sep)

lemma rstrip_sep_prefix: "prefix (rstrip_sep h) h"
  by (induction h rule: rev_induct) (simp_all add: rstrip_sep_snoc rstrip_sep_def)

text \<open>The directory part of a path that does not end with a separator.\<close>

lemma dirname_components:
  assumes "p \<noteq> []" and "\<not> ends_with_sep p"
  shows "components (os_path_dirname p) = butlast (components p)"
    and "components p \<noteq> []"
    and "os_path_dirname p \<noteq> [] \<Longrightarrow> is_abs (os_path_dirname p) = is_abs p"
    and "set (os_path_dirname p) \<subseteq> set p"
proof -
  obtain h t where ht: "p = h @ t" "rfind_sep_plus1 p = length h" "sep \<notin> set t"
    "h = [] \<or> last h = sep"
    using rfind_sep_plus1_decomp[of p] by blast
  have t: "t \<noteq> []"
  proof
    assume "t = []"
    with ht assms show False by (auto simp: ends_with_sep_def)
  qed
  have tk: "take (length h) p = h" using ht by simp
  have dn: "os_path_dirname p = (if h \<noteq> [] \<and> h \<noteq> replicate (length h) sep then rstrip_sep h else h)"
    unfolding os_path_dirname_def Let_def ht(2) tk by simp
  have cp: "components p = components h @ [t]"
    using components_head_tail[OF ht(4) ht(3) t] ht(1) by simp
  have cd: "components (os_path_dirname p) = components h"
    by (simp add: dn components_rstrip_sep)
  show "components (os_path_dirname p) = butlast (components p)" by (simp add: cp cd)
  show "components p \<noteq> []" by (simp add: cp)
  have "prefix (os_path_dirname p) h"
    by (simp add: dn rstrip_sep_prefix)
  moreover have "prefix h p" by (simp add: ht(1))
  ultimately have pre: "prefix (os_path_dirname p) p" by (rule prefix_order.trans)
  then show "set (os_path_dirname p) \<subseteq> set p" by (rule set_mono_prefix)
  show "is_abs (os_path_dirname p) = is_abs p" if "os_path_dirname p \<noteq> []"
  proof -
    from pre obtain zs where "p = os_path_dirname p @ zs" by (auto simp: prefix_def)
    with that have "hd p = hd (os_path_dirname p)" by (metis hd_append2)
    with that assms(1) show ?thesis by (simp add: is_abs_def)
  qed
qed

lemma walk_mono:
  assumes "\<And>q. lookup fs q = Some Dir \<Longrightarrow> lookup fs' q = Some Dir"
  shows "walk fs s cs = Inr d \<Longrightarrow> walk fs' s cs = Inr d"
proof (induction cs arbitrary: s)
  case Nil
  then show ?case by simp
next
  case (Cons c cs)
  show ?case
  proof (cases "c = ''.'' \<or> c = ''..''")
    case True
    with Cons show ?thesis by auto
  next
    case False
    with Cons.prems have "lookup fs (s @ [c]) = Some Dir"
      by (auto split: option.splits node.splits)
    with Cons False assms[of "s @ [c]"] show ?thesis by simp
  qed
qed

lemma walk_snoc:
  "walk fs s (xs @ [x]) = Inr d \<Longrightarrow>
   \<exists>d'. walk fs s xs = Inr d'
        \<and> (if x = ''.'' then d = d'
            else if x = ''..'' then d = butlast d'
            else lookup fs (d' @ [x]) = Some Dir \<and> d = d' @ [x])"
proof (induction xs arbitrary: s)
  case Nil
  then show ?case by (auto split: option.splits node.splits if_splits)
next
  case (Cons c cs)
  show ?case
  proof (cases "c = ''.''")
    case True
    with Cons.prems have "walk fs s (cs @ [x]) = Inr d" by simp
    from Cons.IH[OF this] True show ?thesis by simp
  next
    case dot: False
    show ?thesis
    proof (cases "c = ''..''")
      case True
      with Cons.prems have "walk fs (butlast s) (cs @ [x]) = Inr d" by simp
      from Cons.IH[OF this] True show ?thesis by simp
    next
      case False
      with dot Cons.prems have "lookup fs (s @ [c]) = Some Dir"
        and "walk fs (s @ [c]) (cs @ [x]) = Inr d"
        by (auto split: option.splits node.splits)
      with Cons.IH[OF this(2)] dot False show ?thesis by simp
    qed
  qed
qed

text \<open>What a successful \<open>open(p, "w")\<close> followed by the write has done.\<close>

lemma open_w_write_ok:
  assumes "open_w_write p content fs = (None, fs')"
  shows "\<exists>d. CHR 0x00 \<notin> set p \<and> p \<noteq> [] \<and> \<not> ends_with_sep p \<and> components p \<noteq> []
           \<and> walk fs (start fs p) (butlast (components p)) = Inr d
           \<and> last (components p) \<noteq> ''.'' \<and> last (components p) \<noteq> ''..''
           \<and> lookup fs (d @ [last (components p)]) \<noteq> Some Dir
           \<and> nodes fs' = (nodes fs)(d @ [last (components p)] \<mapsto> File content)
           \<and> cwd fs' = cwd fs"
  using assms
  by (auto simp: open_w_write_def Let_def split: if_splits sum.splits option.splits node.splits)

lemma open_w_write_stat:
  assumes "open_w_write p content fs = (None, fs')"
  shows "\<exists>q. stat fs' p = Inr (q, File content)"
    and "os_path_dirname p \<noteq> [] \<Longrightarrow> os_path_isdir fs' (os_path_dirname p)"
proof -
  let ?cs = "components p"
  let ?l = "last ?cs"
  from open_w_write_ok[OF assms] obtain d where
    p: "CHR 0x00 \<notin> set p" "p \<noteq> []" "\<not> ends_with_sep p" "?cs \<noteq> []"
    and w: "walk fs (start fs p) (butlast ?cs) = Inr d"
    and l: "?l \<noteq> ''.''" "?l \<noteq> ''..''"
    and nd: "lookup fs (d @ [?l]) \<noteq> Some Dir"
    and n': "nodes fs' = (nodes fs)(d @ [?l] \<mapsto> File content)"
    and c': "cwd fs' = cwd fs"
    by blast
  have dirs: "lookup fs q = Some Dir \<Longrightarrow> lookup fs' q = Some Dir" for q
    using nd n' by (auto simp: lookup_def)
  have st: "start fs' p = start fs p" for p by (simp add: start_def c')
  have w': "walk fs' (start fs' p) (butlast ?cs) = Inr d"
    unfolding st using dirs w by (rule walk_mono)
  have lk: "lookup fs' (d @ [?l]) = Some (File content)"
    by (simp add: lookup_def n')
  show "\<exists>q. stat fs' p = Inr (q, File content)"
    using p l w' lk by (simp add: stat_def Let_def)
  show "os_path_isdir fs' (os_path_dirname p)" if ne: "os_path_dirname p \<noteq> []"
  proof -
    let ?dn = "os_path_dirname p"
    have dc: "components ?dn = butlast ?cs" and dabs: "is_abs ?dn = is_abs p"
      and dset: "set ?dn \<subseteq> set p"
      using dirname_components[OF p(2) p(3)] ne by simp_all
    have nul: "CHR 0x00 \<notin> set ?dn" using dset p(1) by blast
    have sd: "start fs' ?dn = start fs' p" by (simp add: start_def dabs)
    show ?thesis
    proof (cases "components ?dn = []")
      case True
      with ne nul show ?thesis by (simp add: os_path_isdir_def stat_def)
    next
      case False
      then have "butlast (components ?dn) @ [last (components ?dn)] = butlast ?cs"
        by (simp add: dc)
      with w' have "walk fs' (start fs' ?dn)
                      (butlast (components ?dn) @ [last (components ?dn)]) = Inr d"
        by (simp add: sd)
      from walk_snoc[OF this] obtain d' where
        "walk fs' (start fs' ?dn) (butlast (components ?dn)) = Inr d'"
        and "if last (components ?dn) = ''.'' then d = d'
             else if last (components ?dn) = ''..'' then d = butlast d'
             else lookup fs' (d' @ [last (components ?dn)]) = Some Dir
                  \<and> d = d' @ [last (components ?dn)]"
        by blast
      with ne nul False show ?thesis
        by (auto simp: os_path_isdir_def stat_def Let_def split: if_splits)
    qed
  qed
qed

lemma os_makedirs_empty: "os_makedirs [] exist_ok fs = (Some FileNotFoundError, fs)"
proof -
  have "head_tail [] = ([], [])"
    by (simp add: head_tail_def os_path_split_def)
  moreover have "mkdir_leaf [] exist_ok fs = (Some FileNotFoundError, fs)"
    by (simp add: mkdir_leaf_def os_mkdir_def os_path_isdir_def stat_def)
  ultimately show ?thesis by (subst os_makedirs.simps) simp
qed

lemma os_path_join_empty: "sep \<notin> set f \<Longrightarrow> os_path_join [] f = f"
  by (cases f) (auto simp: os_path_join_def)

lemma os_path_dirname_no_sep: "sep \<notin> set f \<Longrightarrow> os_path_dirname f = []"
proof -
  assume a: "sep \<notin> set f"
  obtain h t where ht: "f = h @ t" "rfind_sep_plus1 f = length h" "h = [] \<or> last h = sep"
    using rfind_sep_plus1_decomp[of f] by blast
  with a have "h = []" by (cases "h = []") (auto dest: last_in_set)
  with ht show ?thesis by (simp add: os_path_dirname_def)
qed

lemma write_file_empty_directory:
  "sep \<notin> set f \<Longrightarrow> write_file tc [] f c fs = (Inl FileNotFoundError, fs)"
  by (simp add: write_file_def os_path_join_empty os_path_dirname_no_sep os_makedirs_empty)

lemma write_file_ok:
  assumes "fst (write_file tc d f c fs) = Inr r"
  shows "\<exists>fs1. os_makedirs (os_path_dirname (os_path_join d f)) True fs = (None, fs1)
           \<and> open_w_write (os_path_join d f) c fs1 = (None, snd (write_file tc d f c fs))
           \<and> r = [(''status'', ''success'')]"
  using assms
  by (auto simp: write_file_def Let_def split: prod.splits option.splits)


lemma rfind_sep_plus1_append_sep:
  "sep \<notin> set t \<Longrightarrow> rfind_sep_plus1 (h @ sep # t) = Suc (length h)"
proof (induction h)
  case Nil
  obtain h' t' where "t = h' @ t'" "rfind_sep_plus1 t = length h'" "h' = [] \<or> last h' = sep"
    using rfind_sep_plus1_decomp[of t] by blast
  with Nil have "rfind_sep_plus1 t = 0" by (cases "h' = []") (auto dest: last_in_set)
  then show ?case by simp
next
  case (Cons a h)
  then show ?case by simp
qed

text \<open>The path of a report: \<open>os.path.join('verdicts', f)\<close> for a name without separator.\<close>

lemma verdicts_path:
  assumes "f \<noteq> []" and "sep \<notin> set f" and "CHR 0x00 \<notin> set f"
  shows "os_path_dirname (os_path_join ''verdicts'' f) = ''verdicts''"
    and "components (os_path_join ''verdicts'' f) = [''verdicts'', f]"
    and "\<not> is_abs (os_path_join ''verdicts'' f)"
    and "\<not> ends_with_sep (os_path_join ''verdicts'' f)"
    and "CHR 0x00 \<notin> set (os_path_join ''verdicts'' f)"
    and "os_path_join ''verdicts'' f \<noteq> []"
proof -
  define v where "v = ''verdicts''"
  have v: "v \<noteq> []" "last v \<noteq> sep" "sep \<notin> set v" "CHR 0x00 \<notin> set v" "hd v \<noteq> sep"
    by (simp_all add: v_def sep_def)
  from assms have hf: "hd f \<noteq> sep" by (cases f) auto
  have j: "os_path_join v f = v @ sep # f"
    using v assms hf by (simp add: os_path_join_def)
  have r: "rfind_sep_plus1 (v @ sep # f) = Suc (length v)"
    using assms(2) by (rule rfind_sep_plus1_append_sep)
  have tk: "take (Suc (length v)) (v @ sep # f) = v @ [sep]" by simp
  have nrep: "v @ [sep] \<noteq> replicate (length (v @ [sep])) sep"
  proof
    assume "v @ [sep] = replicate (length (v @ [sep])) sep"
    then have "set (v @ [sep]) \<subseteq> {sep}" by (metis set_replicate_conv_if empty_subsetI subset_refl)
    with v show False by (cases v) auto
  qed
  have "rstrip_sep v = v"
    using v(1,2) rstrip_sep_snoc[of "butlast v" "last v"] by simp
  then have rs: "rstrip_sep (v @ [sep]) = v"
    by (simp add: rstrip_sep_snoc)
  have "os_path_dirname (v @ sep # f) = v"
    unfolding os_path_dirname_def Let_def r tk using nrep rs by simp
  then show "os_path_dirname (os_path_join ''verdicts'' f) = ''verdicts''"
    unfolding j[unfolded v_def] v_def .
  have "split_sep (v @ sep # f) = split_sep v @ split_sep f" by (rule split_sep_append_sep)
  also have "\<dots> = [v, f]" using v assms by (simp add: split_sep_no_sep)
  finally have "components (v @ sep # f) = [v, f]"
    using v assms by (simp add: components_def)
  then show "components (os_path_join ''verdicts'' f) = [''verdicts'', f]"
    unfolding j[unfolded v_def] v_def .
  have "\<not> is_abs (v @ sep # f)" using v by (cases v) (auto simp: is_abs_def)
  then show "\<not> is_abs (os_path_join ''verdicts'' f)" unfolding j[unfolded v_def] v_def .
  have "last f \<in> set f" using assms(1) by simp
  with assms(2) have "last f \<noteq> sep" by metis
  with assms(1) have "\<not> ends_with_sep (v @ sep # f)" by (simp add: ends_with_sep_def)
  then show "\<not> ends_with_sep (os_path_join ''verdicts'' f)"
    unfolding j[unfolded v_def] v_def .
  have "CHR 0x00 \<notin> set (v @ sep # f)" using v assms by (simp add: sep_def)
  then show "CHR 0x00 \<notin> set (os_path_join ''verdicts'' f)"
    unfolding j[unfolded v_def] v_def .
  have "v @ sep # f \<noteq> []" by simp
  then show "os_path_join ''verdicts'' f \<noteq> []" unfolding j[unfolded v_def] v_def .
qed

text \<open>
  \<open>os.makedirs('verdicts', exist_ok=True)\<close> where the directory is there already, or is
  missing from a writable working directory.
\<close>

lemma makedirs_verdicts:
  assumes "lookup fs (cwd fs @ [''verdicts'']) = Some Dir
           \<or> lookup fs (cwd fs @ [''verdicts'']) = None \<and> writable fs (cwd fs)"
  shows "\<exists>fs1. os_makedirs ''verdicts'' True fs = (None, fs1)
           \<and> cwd fs1 = cwd fs
           \<and> lookup fs1 (cwd fs @ [''verdicts'']) = Some Dir
           \<and> (\<forall>q. q \<noteq> cwd fs @ [''verdicts''] \<longrightarrow>
                  lookup fs1 q = lookup fs q \<and> writable fs1 q = writable fs q)
           \<and> (lookup fs (cwd fs @ [''verdicts'']) = Some Dir
                \<longrightarrow> writable fs1 (cwd fs @ [''verdicts'']) = writable fs (cwd fs @ [''verdicts'']))
           \<and> (lookup fs (cwd fs @ [''verdicts'']) = None
                \<longrightarrow> writable fs1 (cwd fs @ [''verdicts'']))"
proof -
  have ht: "head_tail ''verdicts'' = ([], ''verdicts'')"
    by (simp add: head_tail_def os_path_split_def sep_def)
  have mk: "os_makedirs ''verdicts'' True fs = mkdir_leaf ''verdicts'' True fs"
    by (subst os_makedirs.simps) (simp add: ht)
  have cs: "components ''verdicts'' = [''verdicts'']"
    by (simp add: components_def sep_def)
  have st: "start fs ''verdicts'' = cwd fs"
    by (simp add: start_def is_abs_def sep_def)
  from assms show ?thesis
  proof
    assume d: "lookup fs (cwd fs @ [''verdicts'']) = Some Dir"
    then have "os_mkdir ''verdicts'' fs = (Some FileExistsError, fs)"
      by (simp add: os_mkdir_def cs st Let_def)
    moreover have "os_path_isdir fs ''verdicts''"
      using d by (simp add: os_path_isdir_def stat_def cs st Let_def)
    ultimately have "mkdir_leaf ''verdicts'' True fs = (None, fs)"
      by (simp add: mkdir_leaf_def)
    with mk d show ?thesis by simp
  next
    assume n: "lookup fs (cwd fs @ [''verdicts'']) = None \<and> writable fs (cwd fs)"
    let ?fs1 = "fs\<lparr>nodes := (nodes fs)(cwd fs @ [''verdicts''] \<mapsto> Dir),
                   writable := (writable fs)(cwd fs @ [''verdicts''] := True)\<rparr>"
    from n have "os_mkdir ''verdicts'' fs = (None, ?fs1)"
      by (simp add: os_mkdir_def cs st Let_def)
    then have "mkdir_leaf ''verdicts'' True fs = (None, ?fs1)"
      by (simp add: mkdir_leaf_def)
    with mk n show ?thesis by (simp add: lookup_def)
  qed
qed

text \<open>
  The call the verdict writer is instructed to make succeeds on a file system where
  \<open>verdicts\<close> can be made or is a directory and the report can be created or replaced.
\<close>

lemma write_file_verdicts_succeeds:
  assumes f: "f \<noteq> []" "sep \<notin> set f" "CHR 0x00 \<notin> set f" "f \<noteq> ''.''" "f \<noteq> ''..''"
    and dir: "lookup fs (cwd fs @ [''verdicts'']) = Some Dir
              \<or> lookup fs (cwd fs @ [''verdicts'']) = None \<and> writable fs (cwd fs)"
    and fl: "case lookup fs (cwd fs @ [''verdicts'', f]) of
                 Some Dir \<Rightarrow> False
               | Some (File old) \<Rightarrow> writable fs (cwd fs @ [''verdicts'', f])
               | None \<Rightarrow> lookup fs (cwd fs @ [''verdicts'']) = Some Dir
                          \<longrightarrow> writable fs (cwd fs @ [''verdicts''])"
  shows "fst (write_file tc ''verdicts'' f c fs) = Inr [(''status'', ''success'')]"
proof -
  define p where "p = os_path_join ''verdicts'' f"
  let ?v = "cwd fs @ [''verdicts'']"
  note vp = verdicts_path[OF f(1) f(2) f(3), folded p_def]
  from makedirs_verdicts[OF dir] obtain fs1 where all:
    "os_makedirs ''verdicts'' True fs = (None, fs1)
     \<and> cwd fs1 = cwd fs
     \<and> lookup fs1 (cwd fs @ [''verdicts'']) = Some Dir
     \<and> (\<forall>q. q \<noteq> cwd fs @ [''verdicts''] \<longrightarrow>
            lookup fs1 q = lookup fs q \<and> writable fs1 q = writable fs q)
     \<and> (lookup fs (cwd fs @ [''verdicts'']) = Some Dir
          \<longrightarrow> writable fs1 (cwd fs @ [''verdicts'']) = writable fs (cwd fs @ [''verdicts'']))
     \<and> (lookup fs (cwd fs @ [''verdicts'']) = None
          \<longrightarrow> writable fs1 (cwd fs @ [''verdicts'']))"
    by (rule exE)
  note mk = all[THEN conjunct1]
  note c1 = all[THEN conjunct2, THEN conjunct1]
  note v1 = all[THEN conjunct2, THEN conjunct2, THEN conjunct1]
  note other = all[THEN conjunct2, THEN conjunct2, THEN conjunct2, THEN conjunct1,
                   THEN spec, THEN mp]
  note wold = all[THEN conjunct2, THEN conjunct2, THEN conjunct2, THEN conjunct2,
                  THEN conjunct1, THEN mp]
  note wnew = all[THEN conjunct2, THEN conjunct2, THEN conjunct2, THEN conjunct2,
                  THEN conjunct2, THEN mp]
  have st: "start fs1 p = cwd fs" using vp(3) by (simp add: start_def c1)
  have wk: "walk fs1 (start fs1 p) (butlast (components p)) = Inr ?v"
    using v1 by (simp add: vp(2) st)
  have ne: "?v @ [f] \<noteq> ?v" by simp
  have vf: "?v @ [f] = cwd fs @ [''verdicts'', f]" by simp
  have lk: "lookup fs1 (cwd fs @ [''verdicts'', f]) = lookup fs (cwd fs @ [''verdicts'', f])"
    and wr: "writable fs1 (cwd fs @ [''verdicts'', f])
               = writable fs (cwd fs @ [''verdicts'', f])"
    using other[OF ne] by simp_all
  have wv: "lookup fs (cwd fs @ [''verdicts'', f]) = None \<Longrightarrow> writable fs1 ?v"
  proof -
    assume "lookup fs (cwd fs @ [''verdicts'', f]) = None"
    with fl have "lookup fs ?v = Some Dir \<longrightarrow> writable fs ?v" by simp
    with dir wold wnew show ?thesis by auto
  qed
  have la: "last (components p) = f" by (simp add: vp(2))
  have "fst (open_w_write p c fs1) = None"
  proof (cases "lookup fs (cwd fs @ [''verdicts'', f])")
    case None
    with wv have "writable fs1 ?v" by simp
    with None lk vp wk f la show ?thesis
      by (simp add: open_w_write_def Let_def)
  next
    case (Some nd)
    with fl obtain old where nd: "nd = File old" by (cases nd) auto
    with Some fl have "writable fs1 (?v @ [f])" by (simp add: wr)
    with Some nd lk vp wk f la show ?thesis
      by (simp add: open_w_write_def Let_def)
  qed
  with mk vp(1) show ?thesis
    by (auto simp: write_file_def p_def[symmetric] split: prod.splits option.splits)
qed

section \<open>Properties of the runner\<close>

lemma held_simps:
  "held (LlmAgent n r ts subs) = set ts \<union> (\<Union>a \<in> set subs. held a)"
  "held (SequentialAgent n subs) = (\<Union>a \<in> set subs. held a)"
  "held (ParallelAgent n subs) = (\<Union>a \<in> set subs. held a)"
  "held (LoopAgent n subs m) = (\<Union>a \<in> set subs. held a)"
  by (auto simp: held_def)

lemma run_calls_Cons_fst:
  "fst (run_calls n ts (c # cs) w) =
     (if tool_of c \<in> set ts then fst (run_calls n ts cs (perform c w))
      else fst (run_calls n ts cs w))"
  by (simp add: case_prod_beta)

lemma run_calls_Cons_snd:
  "snd (run_calls n ts (c # cs) w) =
     (if tool_of c \<in> set ts then ToolCall n c # snd (run_calls n ts cs (perform c w))
      else snd (run_calls n ts cs w))"
  by (simp add: case_prod_beta)

lemma run_calls_preserves:
  assumes R_refl: "\<And>w. R w w"
    and R_trans: "\<And>a b c. R a b \<Longrightarrow> R b c \<Longrightarrow> R a c"
    and perf: "\<And>c w. tool_of c \<in> T \<Longrightarrow> R w (perform c w)"
  shows "set ts \<subseteq> T \<Longrightarrow> R w (fst (run_calls n ts cs w))"
proof (induction cs arbitrary: w)
  case Nil
  then show ?case by (simp add: R_refl)
next
  case (Cons c cs)
  show ?case
  proof (cases "tool_of c \<in> set ts")
    case True
    with Cons.prems have "R w (perform c w)" by (auto intro: perf)
    moreover have "R (perform c w) (fst (run_calls n ts cs (perform c w)))"
      using Cons by simp
    ultimately show ?thesis using True by (auto split: prod.splits intro: R_trans)
  next
    case False
    with Cons show ?thesis by simp
  qed
qed

lemma run_preserves:
  assumes R_refl: "\<And>w. R w w"
    and R_trans: "\<And>a b c. R a b \<Longrightarrow> R b c \<Longrightarrow> R a c"
    and clk: "\<And>w t. R w (w\<lparr>clock := t\<rparr>)"
    and perf: "\<And>c w. tool_of c \<in> T \<Longrightarrow> R w (perform c w)"
  shows "held a \<subseteq> T \<Longrightarrow> R w (fst (snd (run orc a w)))"
    and "(\<Union>a \<in> set as. held a) \<subseteq> T \<Longrightarrow> R w1 (fst (snd (run_seq orc as w1)))"
    and "(\<Union>a \<in> set bs. held a) \<subseteq> T \<Longrightarrow> R w2 (fst (snd (run_par orc bs w2)))"
    and "(\<Union>a \<in> set cs. held a) \<subseteq> T \<Longrightarrow> R w3 (fst (snd (run_loop orc cs k w3)))"
proof (induction orc a w and orc as w1 and orc bs w2 and orc cs k w3
       rule: run_run_seq_run_par_run_loop.induct)
  case (1 orc n r ts subs w)
  obtain x t where att: "attempt orc (nat (attempts r)) (clock w) = (x, t)"
    by (cases "attempt orc (nat (attempts r)) (clock w)")
  show ?case
  proof (cases x)
    case ReasoningFailed
    with att show ?thesis by (simp add: clk)
  next
    case (Acts cs hand)
    obtain w1 ev where rc: "run_calls n ts cs (w\<lparr>clock := t\<rparr>) = (w1, ev)"
      by (cases "run_calls n ts cs (w\<lparr>clock := t\<rparr>)")
    from "1.prems" have ts: "set ts \<subseteq> T" and subs: "(\<Union>a \<in> set subs. held a) \<subseteq> T"
      by (auto simp: held_simps)
    have "R (w\<lparr>clock := t\<rparr>) w1"
      using run_calls_preserves[of R T ts "w\<lparr>clock := t\<rparr>" n cs, OF R_refl R_trans perf ts] rc
      by simp
    with clk[of w t] have w1: "R w w1" by (rule R_trans)
    show ?thesis
    proof (cases hand)
      case True
      have "R w1 (fst (snd (run_seq orc subs w1)))"
        using "1.IH"[OF att[symmetric] Acts rc[symmetric] True subs] .
      with w1 have "R w (fst (snd (run_seq orc subs w1)))" by (rule R_trans)
      with att Acts rc True show ?thesis by (auto split: prod.splits)
    next
      case False
      with att Acts rc w1 show ?thesis by simp
    qed
  qed
next
  case (2 orc n subs w)
  then show ?case by (simp add: held_simps)
next
  case (3 orc n subs w)
  then show ?case by (simp add: held_simps)
next
  case (4 orc n subs m w)
  then show ?case by (auto simp: held_simps split: prod.splits)
next
  case (5 orc w)
  show ?case by (simp add: R_refl)
next
  case (6 orc a as w)
  obtain out w1 ev where r: "run orc a w = (out, w1, ev)"
    by (cases "run orc a w") auto
  from "6.prems" have a: "held a \<subseteq> T" and as: "(\<Union>a \<in> set as. held a) \<subseteq> T" by auto
  from "6.IH"(1)[OF a] r have w1: "R w w1" by simp
  show ?case
  proof (cases out)
    case Completed
    have "R w1 (fst (snd (run_seq orc as w1)))"
      using "6.IH"(2)[OF r[symmetric] Completed refl as] by simp
    with w1 have "R w (fst (snd (run_seq orc as w1)))" by (rule R_trans)
    with r Completed show ?thesis by (auto split: prod.splits)
  next
    case FatalRunFailure
    with r w1 show ?thesis by simp
  qed
next
  case (7 orc w)
  show ?case by (simp add: R_refl)
next
  case (8 orc a as w)
  obtain out w1 ev where r: "run orc a w = (out, w1, ev)"
    by (cases "run orc a w") auto
  from "8.prems" have a: "held a \<subseteq> T" and as: "(\<Union>a \<in> set as. held a) \<subseteq> T" by auto
  from "8.IH"(1)[OF a] r have w1: "R w w1" by simp
  have "R w1 (fst (snd (run_par orc as w1)))"
    using "8.IH"(2)[OF r[symmetric] refl as] by simp
  with w1 have "R w (fst (snd (run_par orc as w1)))" by (rule R_trans)
  with r show ?case by (auto split: prod.splits)
next
  case (9 orc subs w)
  show ?case by (simp add: R_refl)
next
  case (10 orc subs k w)
  obtain out w1 ev where r: "run_seq orc subs w = (out, w1, ev)"
    by (cases "run_seq orc subs w") auto
  from "10.IH"(1)[OF "10.prems"] r have w1: "R w w1" by simp
  show ?case
  proof (cases "out = Completed \<and> \<not> escalate w1")
    case True
    have "R w1 (fst (snd (run_loop orc subs k w1)))"
      using "10.IH"(2)[OF r[symmetric] _ refl _ "10.prems"] True by simp
    with w1 have "R w (fst (snd (run_loop orc subs k w1)))" by (rule R_trans)
    with r True show ?thesis by (auto split: prod.splits)
  next
    case False
    with r w1 show ?thesis by (cases out) (auto split: prod.splits)
  qed
qed


lemma append_to_state_attr:
  "exit_loop_attr (snd (append_to_state tc field response)) = exit_loop_attr tc"
  by (simp add: append_to_state_def Let_def split: sum.splits)

lemma perform_attr_mono:
  "exit_loop_attr (ctx w) \<Longrightarrow> exit_loop_attr (ctx (perform c w))"
  by (cases c) (simp_all add: append_to_state_attr exit_loop_def)

lemma run_calls_attr_mono:
  "exit_loop_attr (ctx w) \<Longrightarrow> exit_loop_attr (ctx (fst (run_calls n ts cs w)))"
  using run_calls_preserves
          [of "\<lambda>w w'. exit_loop_attr (ctx w) \<longrightarrow> exit_loop_attr (ctx w')" UNIV ts w n cs]
  by (simp add: perform_attr_mono)

lemma run_seq_attr_mono:
  "exit_loop_attr (ctx w) \<Longrightarrow> exit_loop_attr (ctx (fst (snd (run_seq orc as w))))"
  using run_preserves(2)
          [of "\<lambda>w w'. exit_loop_attr (ctx w) \<longrightarrow> exit_loop_attr (ctx w')" UNIV as w orc]
  by (simp add: perform_attr_mono)

lemma run_par_attr_mono:
  "exit_loop_attr (ctx w) \<Longrightarrow> exit_loop_attr (ctx (fst (snd (run_par orc as w))))"
  using run_preserves(3)
          [of "\<lambda>w w'. exit_loop_attr (ctx w) \<longrightarrow> exit_loop_attr (ctx w')" UNIV as w orc]
  by (simp add: perform_attr_mono)

lemma run_calls_exit_sets:
  "ToolCall m Call_exit_loop \<in> set (snd (run_calls n ts cs w)) \<Longrightarrow>
   exit_loop_attr (ctx (fst (run_calls n ts cs w)))"
proof (induction cs arbitrary: w)
  case Nil
  then show ?case by simp
next
  case (Cons c cs)
  show ?case
  proof (cases "tool_of c \<in> set ts")
    case False
    with Cons show ?thesis by simp
  next
    case True
    show ?thesis
    proof (cases "c = Call_exit_loop")
      case exit: True
      then have "exit_loop_attr (ctx (perform c w))" by (simp add: exit_loop_def)
      then have "exit_loop_attr (ctx (fst (run_calls n ts cs (perform c w))))"
        by (rule run_calls_attr_mono)
      with True show ?thesis by (simp only: run_calls_Cons_fst if_True)
    next
      case False
      with Cons.prems True
      have "ToolCall m Call_exit_loop \<in> set (snd (run_calls n ts cs (perform c w)))"
        by (simp add: case_prod_beta)
      from Cons.IH[OF this] True show ?thesis by (simp only: run_calls_Cons_fst if_True)
    qed
  qed
qed

lemma event_of_mono: "set ags \<subseteq> set ags' \<Longrightarrow> event_of ags e \<Longrightarrow> event_of ags' e"
  by (cases e) auto

lemma run_calls_events:
  "e \<in> set (snd (run_calls n ts cs w)) \<Longrightarrow> \<exists>c. e = ToolCall n c \<and> tool_of c \<in> set ts"
proof (induction cs arbitrary: w)
  case Nil
  then show ?case by simp
next
  case (Cons c cs)
  then show ?case
    by (cases "tool_of c \<in> set ts") (auto simp: case_prod_beta)
qed

lemma run_events:
  shows "e \<in> set (snd (snd (run orc a w))) \<Longrightarrow> event_of (llm_agents a) e"
    and "e \<in> set (snd (snd (run_seq orc as w1))) \<Longrightarrow> event_of (concat (map llm_agents as)) e"
    and "e \<in> set (snd (snd (run_par orc bs w2))) \<Longrightarrow> event_of (concat (map llm_agents bs)) e"
    and "e \<in> set (concat (snd (snd (run_loop orc cs k w3)))) \<Longrightarrow>
         event_of (concat (map llm_agents cs)) e"
proof (induction orc a w and orc as w1 and orc bs w2 and orc cs k w3
       rule: run_run_seq_run_par_run_loop.induct)
  case (1 orc n r ts subs w)
  obtain x t where att: "attempt orc (nat (attempts r)) (clock w) = (x, t)"
    by (cases "attempt orc (nat (attempts r)) (clock w)")
  show ?case
  proof (cases x)
    case ReasoningFailed
    with att "1.prems" show ?thesis by simp
  next
    case (Acts cs hand)
    obtain w1 ev where rc: "run_calls n ts cs (w\<lparr>clock := t\<rparr>) = (w1, ev)"
      by (cases "run_calls n ts cs (w\<lparr>clock := t\<rparr>)")
    have ev: "e \<in> set ev \<Longrightarrow> event_of (llm_agents (LlmAgent n r ts subs)) e"
      using run_calls_events[of e n ts cs "w\<lparr>clock := t\<rparr>"] rc by auto
    show ?thesis
    proof (cases hand)
      case True
      from "1.prems" att Acts rc True
      have "e \<in> set ev \<or> e \<in> set (snd (snd (run_seq orc subs w1)))"
        by (auto split: prod.splits)
      then show ?thesis
      proof
        assume "e \<in> set ev" then show ?thesis by (rule ev)
      next
        assume "e \<in> set (snd (snd (run_seq orc subs w1)))"
        from "1.IH"[OF att[symmetric] Acts rc[symmetric] True this]
        show ?thesis by (rule event_of_mono[rotated]) auto
      qed
    next
      case False
      with "1.prems" att Acts rc ev show ?thesis by simp
    qed
  qed
next
  case (4 orc n subs m w)
  then show ?case by (auto split: prod.splits)
next
  case (6 orc a as w)
  obtain out w1 ev where r: "run orc a w = (out, w1, ev)"
    by (cases "run orc a w") auto
  show ?case
  proof (cases "e \<in> set ev")
    case True
    with "6.IH"(1) r have "event_of (llm_agents a) e" by simp
    then show ?thesis by (rule event_of_mono[rotated]) auto
  next
    case False
    with "6.prems" r have c: "out = Completed" and "e \<in> set (snd (snd (run_seq orc as w1)))"
      by (cases out; auto split: prod.splits)+
    from "6.IH"(2)[OF r[symmetric] c refl this(2)]
    show ?thesis by (rule event_of_mono[rotated]) auto
  qed
next
  case (8 orc a as w)
  obtain out w1 ev where r: "run orc a w = (out, w1, ev)"
    by (cases "run orc a w") auto
  show ?case
  proof (cases "e \<in> set ev")
    case True
    with "8.IH"(1) r have "event_of (llm_agents a) e" by simp
    then show ?thesis by (rule event_of_mono[rotated]) auto
  next
    case False
    with "8.prems" r have "e \<in> set (snd (snd (run_par orc as w1)))"
      by (auto split: prod.splits)
    from "8.IH"(2)[OF r[symmetric] refl this]
    show ?thesis by (rule event_of_mono[rotated]) auto
  qed
next
  case (10 orc subs k w)
  obtain out w1 ev where r: "run_seq orc subs w = (out, w1, ev)"
    by (cases "run_seq orc subs w") auto
  show ?case
  proof (cases "e \<in> set ev")
    case True
    with "10.IH"(1) r show ?thesis by simp
  next
    case False
    with "10.prems" r
    have c: "out = Completed" and f: "\<not> escalate w1"
      and "e \<in> set (concat (snd (snd (run_loop orc subs k w1))))"
      by (cases out; auto split: prod.splits if_splits)+
    from "10.IH"(2)[OF r[symmetric] c refl f this(3)] show ?thesis .
  qed
qed simp_all

lemma run_completed_no_failure:
  shows "fst (run orc a w) = Completed \<Longrightarrow> AgentFailed m \<notin> set (snd (snd (run orc a w)))"
    and "fst (run_seq orc as w1) = Completed \<Longrightarrow>
         AgentFailed m \<notin> set (snd (snd (run_seq orc as w1)))"
    and "fst (run_par orc bs w2) = Completed \<Longrightarrow>
         AgentFailed m \<notin> set (snd (snd (run_par orc bs w2)))"
    and "fst (run_loop orc cs k w3) = Completed \<Longrightarrow>
         AgentFailed m \<notin> set (concat (snd (snd (run_loop orc cs k w3))))"
proof (induction orc a w and orc as w1 and orc bs w2 and orc cs k w3
       rule: run_run_seq_run_par_run_loop.induct)
  case (1 orc n r ts subs w)
  obtain x t where att: "attempt orc (nat (attempts r)) (clock w) = (x, t)"
    by (cases "attempt orc (nat (attempts r)) (clock w)")
  show ?case
  proof (cases x)
    case ReasoningFailed
    with att "1.prems" show ?thesis by simp
  next
    case (Acts cs hand)
    obtain w1 ev where rc: "run_calls n ts cs (w\<lparr>clock := t\<rparr>) = (w1, ev)"
      by (cases "run_calls n ts cs (w\<lparr>clock := t\<rparr>)")
    have ev: "AgentFailed m \<notin> set ev"
      using run_calls_events[of "AgentFailed m" n ts cs "w\<lparr>clock := t\<rparr>"] rc by auto
    show ?thesis
    proof (cases hand)
      case True
      from "1.prems" att Acts rc True have "fst (run_seq orc subs w1) = Completed"
        by (auto split: prod.splits)
      from "1.IH"[OF att[symmetric] Acts rc[symmetric] True this] ev att Acts rc True
      show ?thesis by (auto split: prod.splits)
    next
      case False
      with att Acts rc ev show ?thesis by simp
    qed
  qed
next
  case (4 orc n subs m w)
  then show ?case by (auto split: prod.splits)
next
  case (6 orc a as w)
  obtain out w1 ev where r: "run orc a w = (out, w1, ev)"
    by (cases "run orc a w") auto
  from "6.prems" r have c: "out = Completed" and c2: "fst (run_seq orc as w1) = Completed"
    by (cases out; auto split: prod.splits)+
  from "6.IH"(1) r c have "AgentFailed m \<notin> set ev" by simp
  with "6.IH"(2)[OF r[symmetric] c refl c2] r c show ?case by (auto split: prod.splits)
next
  case (8 orc a as w)
  obtain out w1 ev where r: "run orc a w = (out, w1, ev)"
    by (cases "run orc a w") auto
  from "8.prems" r have c: "out = Completed" and c2: "fst (run_par orc as w1) = Completed"
    by (cases out; auto split: prod.splits if_splits)+
  from "8.IH"(1) r c have "AgentFailed m \<notin> set ev" by simp
  with "8.IH"(2)[OF r[symmetric] refl c2] r c show ?case by (auto split: prod.splits)
next
  case (10 orc subs k w)
  obtain out w1 ev where r: "run_seq orc subs w = (out, w1, ev)"
    by (cases "run_seq orc subs w") auto
  from "10.prems" r have c: "out = Completed" by (cases out; auto split: prod.splits)
  from "10.IH"(1) r c have ev: "AgentFailed m \<notin> set ev" by simp
  show ?case
  proof (cases "escalate w1")
    case True
    with r c ev show ?thesis by simp
  next
    case False
    with "10.prems" r c have c2: "fst (run_loop orc subs k w1) = Completed"
      by (auto split: prod.splits)
    from "10.IH"(2)[OF r[symmetric] c refl False c2] r c ev False
    show ?thesis by (auto split: prod.splits)
  qed
qed simp_all

lemma run_loop_Suc:
  "run_loop orc subs (Suc k) w =
     (let r = run_seq orc subs w; w1 = fst (snd r); ev = snd (snd r)
      in if fst r = FatalRunFailure \<or> escalate w1 then (fst r, w1, [ev])
         else (fst (run_loop orc subs k w1), fst (snd (run_loop orc subs k w1)),
               ev # snd (snd (run_loop orc subs k w1))))"
  by (cases "run_seq orc subs w"; cases "fst (run_seq orc subs w)")
     (auto simp: Let_def split: prod.splits)

lemma run_loop_length:
  "length (snd (snd (run_loop orc subs n w))) \<le> n"
proof (induction n arbitrary: w)
  case 0
  show ?case by simp
next
  case (Suc n)
  show ?case
    using Suc[of "fst (snd (run_seq orc subs w))"]
    by (simp add: run_loop_Suc Let_def del: run_loop.simps)
qed

lemma perform_escalate: "escalate (perform c w) = escalate w"
  by (cases c) simp_all

text \<open>No run changes the control signal: \<open>exit_loop\<close> assigns the attribute only.\<close>

lemma run_seq_escalate: "escalate (fst (snd (run_seq orc as w))) = escalate w"
  using run_preserves(2)[of "\<lambda>w w'. escalate w' = escalate w" UNIV as w orc]
  by (simp add: perform_escalate)

text \<open>
  So a loop that is entered without the signal and ends as completed has run every one of
  its iterations, whatever its agents invoked.
\<close>

lemma run_loop_runs_to_the_bound:
  "\<not> escalate w \<Longrightarrow> fst (run_loop orc subs n w) = Completed \<Longrightarrow>
   length (snd (snd (run_loop orc subs n w))) = n"
proof (induction n arbitrary: w)
  case 0
  show ?case by simp
next
  case (Suc n)
  let ?r = "run_seq orc subs w"
  let ?w1 = "fst (snd ?r)"
  have e: "\<not> escalate ?w1" using Suc.prems(1) by (simp add: run_seq_escalate)
  show ?case
  proof (cases "fst ?r")
    case FatalRunFailure
    with Suc.prems(2) show ?thesis by (simp add: run_loop_Suc Let_def del: run_loop.simps)
  next
    case Completed
    with e Suc.prems(2) have "fst (run_loop orc subs n ?w1) = Completed"
      by (simp add: run_loop_Suc Let_def del: run_loop.simps)
    from Suc.IH[OF e this] Completed e show ?thesis
      by (simp add: run_loop_Suc Let_def del: run_loop.simps)
  qed
qed

lemma perform_files:
  "tool_of c \<noteq> Tool_write_file \<Longrightarrow> files (perform c w) = files w"
  by (cases c) simp_all

lemma run_files_unchanged:
  "Tool_write_file \<notin> held a \<Longrightarrow> files (fst (snd (run orc a w))) = files w"
  using run_preserves(1)[of "\<lambda>w w'. files w' = files w" "UNIV - {Tool_write_file}" a w orc]
  by (auto simp: perform_files)

lemma run_calls_files_unchanged:
  "Tool_write_file \<notin> set ts \<Longrightarrow> files (fst (run_calls n ts cs w)) = files w"
  using run_calls_preserves[of "\<lambda>w w'. files w' = files w" "UNIV - {Tool_write_file}" ts w n cs]
  by (auto simp: perform_files)

lemma held_trial_and_review:
  "held trial_and_review = {Tool_wikipedia, Tool_append_to_state, Tool_exit_loop}"
  by (auto simp: held_def trial_and_review_def investigation_team_def admirer_researcher_def
        critic_researcher_def judge_def)

lemma court_failure_no_file:
  assumes "AgentFailed n \<in> set (snd (snd (run orc historical_court w)))"
    and "n \<noteq> ''verdict_writer''"
  shows "files (fst (snd (run orc historical_court w))) = files w"
proof -
  obtain out w1 ev where r: "run orc trial_and_review w = (out, w1, ev)"
    by (cases "run orc trial_and_review w") auto
  have f: "files w1 = files w"
    using run_files_unchanged[of trial_and_review orc w] r by (simp add: held_trial_and_review)
  show ?thesis
  proof (cases out)
    case FatalRunFailure
    with r f show ?thesis by (simp add: historical_court_def)
  next
    case Completed
    with r have "AgentFailed n \<notin> set ev"
      using run_completed_no_failure(1)[of orc trial_and_review w n] by simp
    with assms(1) r Completed
    have "AgentFailed n \<in> set (snd (snd (run orc verdict_writer w1)))"
      by (auto simp: historical_court_def split: prod.splits outcome.splits)
    then have "event_of (llm_agents verdict_writer) (AgentFailed n)" by (rule run_events(1))
    with assms(2) show ?thesis by (simp add: verdict_writer_def)
  qed
qed


lemma append_to_state_grows:
  assumes "state tc k = Some (VList xs)"
  shows "\<exists>ys. state (snd (append_to_state tc field response)) k = Some (VList ys) \<and> prefix xs ys"
proof (cases "k = field")
  case True
  with assms show ?thesis by (simp add: append_to_state_list)
next
  case False
  with assms show ?thesis
    by (simp add: append_to_state_def Let_def split: sum.splits)
qed

lemma perform_grows:
  assumes "state (ctx w) k = Some (VList xs)"
  shows "\<exists>ys. state (ctx (perform c w)) k = Some (VList ys) \<and> prefix xs ys"
proof (cases c)
  case (Call_append_to_state field response)
  with append_to_state_grows[OF assms, of field response] show ?thesis by simp
qed (use assms in \<open>simp_all add: exit_loop_def\<close>)

text \<open>Across a whole run the sequences of the store only grow at the end.\<close>

lemma run_sequences_grow:
  assumes "state (ctx w) k = Some (VList xs)"
  shows "\<exists>ys. state (ctx (fst (snd (run orc a w)))) k = Some (VList ys) \<and> prefix xs ys"
proof -
  let ?R = "\<lambda>w w'. \<forall>k xs. state (ctx w) k = Some (VList xs) \<longrightarrow>
              (\<exists>ys. state (ctx w') k = Some (VList ys) \<and> prefix xs ys)"
  have "?R w (fst (snd (run orc a w)))"
  proof (rule run_preserves(1)[of ?R UNIV])
    show "?R w w" for w by auto
    show "?R a c" if "?R a b" "?R b c" for a b c
    proof (intro allI impI)
      fix k xs assume "state (ctx a) k = Some (VList xs)"
      with that(1) obtain ys where ys: "state (ctx b) k = Some (VList ys)" "prefix xs ys"
        by blast
      with that(2) obtain zs where "state (ctx c) k = Some (VList zs)" "prefix ys zs"
        by blast
      with ys show "\<exists>ys. state (ctx c) k = Some (VList ys) \<and> prefix xs ys"
        by (auto intro: prefix_order.trans)
    qed
    show "?R w (w\<lparr>clock := t\<rparr>)" for w t by auto
    show "?R w (perform c w)" for c w using perform_grows by blast
    show "held a \<subseteq> UNIV" by simp
  qed
  with assms show ?thesis by blast
qed

lemma append_to_state_keeps_lists:
  assumes "\<forall>k v. state tc k = Some v \<longrightarrow> (\<exists>xs. v = VList xs)"
  shows "\<forall>k v. state (snd (append_to_state tc field response)) k = Some v
               \<longrightarrow> (\<exists>xs. v = VList xs)"
proof (cases "state tc field")
  case None
  with assms show ?thesis by (auto simp: append_to_state_absent)
next
  case (Some v)
  with assms obtain xs where "v = VList xs" by blast
  with Some assms show ?thesis by (auto simp: append_to_state_list)
qed

text \<open>
  From a store in which every value is a sequence, as the empty store at the start of a
  run is, every run leads to such a store: no tool of the module writes anything else.
\<close>

lemma run_store_holds_sequences:
  assumes "\<forall>k v. state (ctx w) k = Some v \<longrightarrow> (\<exists>xs. v = VList xs)"
  shows "\<forall>k v. state (ctx (fst (snd (run orc a w)))) k = Some v \<longrightarrow> (\<exists>xs. v = VList xs)"
proof -
  let ?L = "\<lambda>w. \<forall>k v. state (ctx w) k = Some v \<longrightarrow> (\<exists>xs. v = VList xs)"
  have "?L w \<longrightarrow> ?L (fst (snd (run orc a w)))"
  proof (rule run_preserves(1)[of "\<lambda>w w'. ?L w \<longrightarrow> ?L w'" UNIV])
    show "?L w \<longrightarrow> ?L w" for w by simp
    show "?L a \<longrightarrow> ?L c" if "?L a \<longrightarrow> ?L b" "?L b \<longrightarrow> ?L c" for a b c
      using that by blast
    show "?L w \<longrightarrow> ?L (w\<lparr>clock := t\<rparr>)" for w t by simp
    show "?L w \<longrightarrow> ?L (perform c w)" for c w
    proof (cases c)
      case (Call_append_to_state field response)
      then show ?thesis using append_to_state_keeps_lists[of "ctx w" field response] by simp
    qed (simp_all add: exit_loop_def)
    show "held a \<subseteq> UNIV" by simp
  qed
  with assms show ?thesis by blast
qed

section \<open>Claims about the append tool\<close>

text \<open>
  C1. Where the key is absent or holds a sequence, \<open>append_to_state\<close> stores under the key
  the earlier sequence (the empty one for an absent key) followed by the response; the
  earlier entries are a prefix of the new value and the length grows by one. Within a run
  that starts from the empty store no key holds anything but a sequence
  (\<open>run_store_holds_sequences\<close>), and the sequences only grow (\<open>run_sequences_grow\<close>).
\<close>

theorem append_to_state_appends:
  assumes "state tc field = None \<and> xs = [] \<or> state tc field = Some (VList xs)"
  shows "state (snd (append_to_state tc field response)) field
           = Some (VList (xs @ [VStr response]))
         \<and> (\<exists>ys. state (snd (append_to_state tc field response)) field = Some (VList ys)
                \<and> prefix xs ys \<and> length ys = Suc (length xs))"
  using assms
  by (auto simp: append_to_state_absent append_to_state_list)

theorem append_to_state_appends_witness:
  "state (snd (append_to_state
       \<lparr>state = [''pos_data'' \<mapsto> VList [VStr ''a'']], exit_loop_attr = False\<rparr>
       ''pos_data'' ''b'')) ''pos_data''
     = Some (VList [VStr ''a'', VStr ''b''])
   \<and> state (snd (append_to_state \<lparr>state = Map.empty, exit_loop_attr = False\<rparr>
       ''neg_data'' ''c'')) ''neg_data''
     = Some (VList [VStr ''c''])"
  using append_to_state_appends
          [of "\<lparr>state = [''pos_data'' \<mapsto> VList [VStr ''a'']], exit_loop_attr = False\<rparr>"
              "''pos_data''" "[VStr ''a'']" "''b''"]
        append_to_state_appends
          [of "\<lparr>state = Map.empty, exit_loop_attr = False\<rparr>" "''neg_data''" "[]" "''c''"]
  by simp

text \<open>
  C8. On a key that is absent or holds a sequence \<open>append_to_state\<close> returns
  \<open>{"status": "success"}\<close>; on a key that holds a bare string the concatenation raises
  \<open>TypeError\<close>; and whenever the call returns, the key holds a sequence afterwards, never
  a bare string.
\<close>

theorem append_to_state_succeeds_on_sequences:
  "(state tc field = None \<or> (\<exists>xs. state tc field = Some (VList xs))
      \<longrightarrow> fst (append_to_state tc field response) = Inr [(''status'', ''success'')])
   \<and> (state tc field = Some (VStr s)
      \<longrightarrow> append_to_state tc field response = (Inl TypeError, tc))
   \<and> (fst (append_to_state tc field response) = Inr r
      \<longrightarrow> (\<exists>ys. state (snd (append_to_state tc field response)) field = Some (VList ys))
          \<and> state (snd (append_to_state tc field response)) field \<noteq> Some (VStr s'))"
proof (intro conjI impI)
  assume "state tc field = None \<or> (\<exists>xs. state tc field = Some (VList xs))"
  then show "fst (append_to_state tc field response) = Inr [(''status'', ''success'')]"
    by (auto simp: append_to_state_absent append_to_state_list)
next
  assume "state tc field = Some (VStr s)"
  then show "append_to_state tc field response = (Inl TypeError, tc)"
    by (simp add: append_to_state_not_list)
next
  assume r: "fst (append_to_state tc field response) = Inr r"
  then have "\<exists>ys. state (snd (append_to_state tc field response)) field = Some (VList ys)"
    by (rule append_to_state_returns_list)
  then show "\<exists>ys. state (snd (append_to_state tc field response)) field = Some (VList ys)"
    and "state (snd (append_to_state tc field response)) field \<noteq> Some (VStr s')"
    by auto
qed

theorem append_to_state_succeeds_on_sequences_witness:
  "fst (append_to_state \<lparr>state = Map.empty, exit_loop_attr = False\<rparr> ''pos_data'' ''a'')
     = Inr [(''status'', ''success'')]
   \<and> fst (append_to_state
        \<lparr>state = [''pos_data'' \<mapsto> VList [VStr ''a'']], exit_loop_attr = False\<rparr>
        ''pos_data'' ''b'')
     = Inr [(''status'', ''success'')]
   \<and> append_to_state \<lparr>state = [''TOPIC'' \<mapsto> VStr ''Rome''], exit_loop_attr = False\<rparr>
        ''TOPIC'' ''b''
     = (Inl TypeError, \<lparr>state = [''TOPIC'' \<mapsto> VStr ''Rome''], exit_loop_attr = False\<rparr>)
   \<and> state (snd (append_to_state \<lparr>state = Map.empty, exit_loop_attr = False\<rparr>
        ''pos_data'' ''a'')) ''pos_data'' \<noteq> Some (VStr ''a'')"
  using append_to_state_succeeds_on_sequences
          [of "\<lparr>state = Map.empty, exit_loop_attr = False\<rparr>" "''pos_data''" "''a''"
              "''x''" "[(''status'', ''success'')]" "''a''"]
        append_to_state_succeeds_on_sequences
          [of "\<lparr>state = [''pos_data'' \<mapsto> VList [VStr ''a'']], exit_loop_attr = False\<rparr>"
              "''pos_data''" "''b''" "''x''" "[]" "''x''"]
        append_to_state_succeeds_on_sequences
          [of "\<lparr>state = [''TOPIC'' \<mapsto> VStr ''Rome''], exit_loop_attr = False\<rparr>"
              "''TOPIC''" "''b''" "''Rome''" "[]" "''x''"]
  by simp

text \<open>
  C9. \<open>append_to_state\<close> changes the store at the given key only: every other key maps to
  the value it had before, and the exit attribute of the context is untouched.
\<close>

theorem append_to_state_frame:
  "k \<noteq> field \<Longrightarrow>
   state (snd (append_to_state tc field response)) k = state tc k
   \<and> exit_loop_attr (snd (append_to_state tc field response)) = exit_loop_attr tc"
  by (simp add: append_to_state_def Let_def split: sum.splits)

theorem append_to_state_frame_witness:
  "state (snd (append_to_state
       \<lparr>state = [''neg_data'' \<mapsto> VList [VStr ''n'']], exit_loop_attr = False\<rparr>
       ''pos_data'' ''p'')) ''neg_data''
     = Some (VList [VStr ''n''])"
  using append_to_state_frame
          [of "''neg_data''" "''pos_data''"
              "\<lparr>state = [''neg_data'' \<mapsto> VList [VStr ''n'']], exit_loop_attr = False\<rparr>" "''p''"]
  by simp

text \<open>
  C5, as the specification states it, fails: the inquiry clerk holds \<open>append_to_state\<close>
  only, and after that tool has stored the topic \<open>Napoleon\<close> in an empty store the key
  \<open>TOPIC\<close> holds the list \<open>['Napoleon']\<close>, not the string.
\<close>

theorem topic_not_a_string:
  "tools root_agent = [Tool_append_to_state]
   \<and> state (snd (append_to_state \<lparr>state = Map.empty, exit_loop_attr = False\<rparr>
        ''TOPIC'' ''Napoleon'')) ''TOPIC''
       = Some (VList [VStr ''Napoleon''])
   \<and> state (snd (append_to_state \<lparr>state = Map.empty, exit_loop_attr = False\<rparr>
        ''TOPIC'' ''Napoleon'')) ''TOPIC''
       \<noteq> Some (VStr ''Napoleon'')"
  by (simp add: root_agent_def append_to_state_def state_get_def)

text \<open>
  C5, amended. The only tool of the inquiry clerk is \<open>append_to_state\<close>; after it has
  stored the topic in a store with no \<open>TOPIC\<close> entry, the key holds the one-element
  sequence of the topic string.
\<close>

theorem topic_stored_as_sequence:
  "tools root_agent = [Tool_append_to_state]
   \<and> (state tc ''TOPIC'' = None
        \<longrightarrow> append_to_state tc ''TOPIC'' topic
            = (Inr [(''status'', ''success'')],
               tc\<lparr>state := (state tc)(''TOPIC'' \<mapsto> VList [VStr topic])\<rparr>))"
  by (simp add: root_agent_def append_to_state_absent)

theorem topic_stored_as_sequence_witness:
  "state (snd (append_to_state (ctx initial_world) ''TOPIC'' ''Example'')) ''TOPIC''
     = Some (VList [VStr ''Example''])"
  using topic_stored_as_sequence [of "ctx initial_world" "''Example''"]
  by (simp add: initial_world_def)

section \<open>Claims about the file-write tool\<close>

text \<open>
  C4, as the specification states it, fails: with the empty string as directory and a file
  name without a separator, \<open>os.makedirs('')\<close> raises \<open>FileNotFoundError\<close>; no directory
  is made, nothing is written and no status is returned.
\<close>

theorem write_file_empty_directory_raises:
  "write_file (ctx initial_world) [] ''Napoleon.txt'' ''report'' (files initial_world)
     = (Inl FileNotFoundError, files initial_world)"
  using write_file_empty_directory [of "''Napoleon.txt''"]
  by (simp add: sep_def)

text \<open>
  C4, amended. Whenever \<open>write_file\<close> returns, it returns \<open>{"status": "success"}\<close>, the
  path \<open>os.path.join(directory, filename)\<close> names a regular file that holds exactly the
  content (whatever was there before), and the directory part of that path is a directory.
  The joined path is \<open>directory/filename\<close> when the directory is not empty and does not
  end with a separator and the file name does not start with one.
\<close>

theorem write_file_writes_joined_path:
  assumes "fst (write_file tc d f c fs) = Inr r"
  shows "r = [(''status'', ''success'')]
         \<and> (\<exists>q. stat (snd (write_file tc d f c fs)) (os_path_join d f) = Inr (q, File c))
         \<and> os_path_isdir (snd (write_file tc d f c fs)) (os_path_dirname (os_path_join d f))
         \<and> (d \<noteq> [] \<and> last d \<noteq> sep \<and> (f = [] \<or> hd f \<noteq> sep)
              \<longrightarrow> os_path_join d f = d @ [sep] @ f)"
proof -
  let ?p = "os_path_join d f"
  from write_file_ok[OF assms] obtain fs1 where
    mk: "os_makedirs (os_path_dirname ?p) True fs = (None, fs1)"
    and op: "open_w_write ?p c fs1 = (None, snd (write_file tc d f c fs))"
    and r: "r = [(''status'', ''success'')]"
    by blast
  have ne: "os_path_dirname ?p \<noteq> []"
  proof
    assume "os_path_dirname ?p = []"
    with mk show False by (simp add: os_makedirs_empty)
  qed
  from open_w_write_stat[OF op] ne r show ?thesis
    by (auto simp: os_path_join_def)
qed

theorem write_file_writes_joined_path_witness:
  "fst (write_file (ctx initial_world) ''verdicts'' ''Example.txt'' ''report''
         (files initial_world))
     = Inr [(''status'', ''success'')]
   \<and> (\<exists>q. stat (snd (write_file (ctx initial_world) ''verdicts'' ''Example.txt'' ''report''
                      (files initial_world)))
              (os_path_join ''verdicts'' ''Example.txt'')
            = Inr (q, File ''report''))
   \<and> os_path_join ''verdicts'' ''Example.txt'' = ''verdicts/Example.txt''
   \<and> (\<exists>q. stat (snd (write_file (ctx initial_world) ''verdicts'' ''Example.txt'' ''second''
                      (snd (write_file (ctx initial_world) ''verdicts'' ''Example.txt''
                              ''report'' (files initial_world)))))
              (os_path_join ''verdicts'' ''Example.txt'')
            = Inr (q, File ''second''))"
proof -
  let ?fs1 = "snd (write_file (ctx initial_world) ''verdicts'' ''Example.txt'' ''report''
                    (files initial_world))"
  have h1: "fst (write_file (ctx initial_world) ''verdicts'' ''Example.txt'' ''report''
                   (files initial_world))
              = Inr [(''status'', ''success'')]"
    by code_simp
  have h2: "fst (write_file (ctx initial_world) ''verdicts'' ''Example.txt'' ''second'' ?fs1)
              = Inr [(''status'', ''success'')]"
    by code_simp
  have j: "os_path_join ''verdicts'' ''Example.txt'' = ''verdicts/Example.txt''"
    by (simp add: os_path_join_def sep_def)
  from write_file_writes_joined_path[OF h1]
  have s1: "\<exists>q. stat ?fs1 (os_path_join ''verdicts'' ''Example.txt'')
                   = Inr (q, File ''report'')"
    by blast
  from write_file_writes_joined_path[OF h2]
  have s2: "\<exists>q. stat (snd (write_file (ctx initial_world) ''verdicts'' ''Example.txt''
                              ''second'' ?fs1))
                     (os_path_join ''verdicts'' ''Example.txt'')
                   = Inr (q, File ''second'')"
    by blast
  from h1 s1 j s2 show ?thesis by (intro conjI)
qed

text \<open>
  C10. A normal return of \<open>write_file\<close> is always \<open>{"status": "success"}\<close>; an exception
  of \<open>os.makedirs\<close> or of \<open>open\<close> (a denied write, for one) leaves the function as that
  exception; and with the empty directory and a file name without a separator the call
  raises \<open>FileNotFoundError\<close> and changes nothing.
\<close>

theorem write_file_never_returns_failure:
  "(fst (write_file tc d f c fs) = Inr r \<longrightarrow> r = [(''status'', ''success'')])
   \<and> (fst (os_makedirs (os_path_dirname (os_path_join d f)) True fs) = Some e
        \<longrightarrow> fst (write_file tc d f c fs) = Inl e)
   \<and> (fst (os_makedirs (os_path_dirname (os_path_join d f)) True fs) = None
      \<and> fst (open_w_write (os_path_join d f) c
               (snd (os_makedirs (os_path_dirname (os_path_join d f)) True fs))) = Some e
        \<longrightarrow> fst (write_file tc d f c fs) = Inl e)
   \<and> (sep \<notin> set f \<longrightarrow> write_file tc [] f c fs = (Inl FileNotFoundError, fs))"
  by (auto simp: write_file_def Let_def write_file_empty_directory[unfolded write_file_def Let_def]
        split: prod.splits option.splits)

theorem write_file_never_returns_failure_witness:
  "fst (write_file (ctx initial_world) ''verdicts'' ''Example.txt'' ''report''
         \<lparr>nodes = [[''verdicts''] \<mapsto> Dir, [''verdicts'', ''Example.txt''] \<mapsto> File ''old''],
          cwd = [], writable = (\<lambda>p. p \<noteq> [''verdicts'', ''Example.txt''])\<rparr>)
     = Inl PermissionError
   \<and> fst (write_file (ctx initial_world) ''verdicts/Example.txt'' ''x'' ''report''
         \<lparr>nodes = [[''verdicts''] \<mapsto> Dir, [''verdicts'', ''Example.txt''] \<mapsto> File ''old''],
          cwd = [], writable = (\<lambda>p. True)\<rparr>)
     = Inl FileExistsError
   \<and> fst (write_file (ctx initial_world) [] ''Example.txt'' ''report'' (files initial_world))
     = Inl FileNotFoundError"
proof -
  let ?ro = "\<lparr>nodes = [[''verdicts''] \<mapsto> Dir, [''verdicts'', ''Example.txt''] \<mapsto> File ''old''],
              cwd = [], writable = (\<lambda>p. p \<noteq> [''verdicts'', ''Example.txt''])\<rparr>"
  let ?rw = "\<lparr>nodes = [[''verdicts''] \<mapsto> Dir, [''verdicts'', ''Example.txt''] \<mapsto> File ''old''],
              cwd = [], writable = (\<lambda>p. True)\<rparr>"
  have a: "fst (os_makedirs (os_path_dirname (os_path_join ''verdicts'' ''Example.txt''))
                  True ?ro) = None
           \<and> fst (open_w_write (os_path_join ''verdicts'' ''Example.txt'') ''report''
                    (snd (os_makedirs
                            (os_path_dirname (os_path_join ''verdicts'' ''Example.txt''))
                            True ?ro)))
             = Some PermissionError"
    by code_simp
  have b: "fst (os_makedirs (os_path_dirname (os_path_join ''verdicts/Example.txt'' ''x''))
                  True ?rw) = Some FileExistsError"
    by code_simp
  have c: "sep \<notin> set ''Example.txt''" by (simp add: sep_def)
  from a b c
    write_file_never_returns_failure
      [of "ctx initial_world" "''verdicts''" "''Example.txt''" "''report''" ?ro
          "[]" PermissionError]
    write_file_never_returns_failure
      [of "ctx initial_world" "''verdicts/Example.txt''" "''x''" "''report''" ?rw
          "[]" FileExistsError]
    write_file_never_returns_failure
      [of "ctx initial_world" "[]" "''Example.txt''" "''report''" "files initial_world"
          "[]" FileNotFoundError]
  show ?thesis by simp
qed

section \<open>Claims about the agents and their runner\<close>

text \<open>
  C7. The reasoning-backed agents of the tree are the inquiry clerk, the two researchers,
  the judge and the verdict writer, and each is configured with 2 attempts and an initial
  delay of 1.
\<close>

theorem retry_policy_of_every_llm_agent:
  "map (\<lambda>(n, r, ts). (n, attempts r, initial_delay r)) (llm_agents root_agent) =
     [(''inquiry_clerk'', 2, 1), (''admirer_researcher'', 2, 1),
      (''critic_researcher'', 2, 1), (''judge'', 2, 1), (''verdict_writer'', 2, 1)]"
  by (simp add: root_agent_def historical_court_def trial_and_review_def
        investigation_team_def admirer_researcher_def critic_researcher_def judge_def
        verdict_writer_def)

text \<open>
  C2. Whatever the reasoning backend answers, and so whether or not \<open>exit_loop\<close> is ever
  invoked, \<open>trial_and_review\<close> (children \<open>investigation_team\<close> then \<open>judge\<close>,
  \<open>max_iterations = 3\<close>) runs its child sequence at most 3 times.
\<close>

theorem trial_and_review_at_most_three_iterations:
  "sub_agents trial_and_review = [investigation_team, judge]
   \<and> max_iterations trial_and_review = Some 3
   \<and> length (iterations orc trial_and_review w) \<le> 3"
  by (simp add: trial_and_review_def run_loop_length del: run_loop.simps)

theorem trial_and_review_at_most_three_iterations_witness:
  "length (iterations (\<lambda>t. Acts [] False) trial_and_review initial_world) = 3"
proof -
  have "length (iterations (\<lambda>t. Acts [] False) trial_and_review initial_world) \<le> 3"
    using trial_and_review_at_most_three_iterations
            [of "\<lambda>t. Acts [] False" initial_world]
    by simp
  moreover
  have "3 \<le> length (iterations (\<lambda>t. Acts [] False) trial_and_review initial_world)"
    by code_simp
  ultimately show ?thesis by simp
qed

text \<open>
  C3 does not hold of the module. The tool \<open>exit_loop\<close>, documented as "Exits the current
  loop", assigns the attribute \<open>exit_loop\<close> of the tool context, and the loop reads the
  control signal instead. When the judge invokes \<open>exit_loop\<close> in the first iteration of
  \<open>trial_and_review\<close>, the attribute is set at the end of the run, the signal is not, and
  the second and the third iteration have run all the same.
\<close>

theorem exit_loop_does_not_end_trial_and_review:
  "iterations (\<lambda>t. if t = 2 then Acts [Call_exit_loop] False else Acts [] False)
     trial_and_review initial_world
     = [[ToolCall ''judge'' Call_exit_loop], [], []]
   \<and> exit_loop_attr (ctx (fst (snd
        (run (\<lambda>t. if t = 2 then Acts [Call_exit_loop] False else Acts [] False)
           trial_and_review initial_world))))
   \<and> \<not> escalate (fst (snd
        (run (\<lambda>t. if t = 2 then Acts [Call_exit_loop] False else Acts [] False)
           trial_and_review initial_world)))"
  by code_simp

text \<open>
  C6. \<open>verdict_writer\<close> is the only agent that holds \<open>write_file\<close>; and in every run from
  the root in which an agent other than \<open>verdict_writer\<close> fails fatally, the file system
  at the end is the one at the start: no report file is produced.
\<close>

theorem no_report_file_after_upstream_failure:
  "holders Tool_write_file root_agent = [''verdict_writer'']
   \<and> (AgentFailed n \<in> set (snd (snd (run orc root_agent w))) \<and> n \<noteq> ''verdict_writer''
        \<longrightarrow> files (fst (snd (run orc root_agent w))) = files w)"
proof (intro conjI impI)
  show "holders Tool_write_file root_agent = [''verdict_writer'']"
    by (simp add: holders_def root_agent_def historical_court_def trial_and_review_def
          investigation_team_def admirer_researcher_def critic_researcher_def judge_def
          verdict_writer_def)
next
  assume a: "AgentFailed n \<in> set (snd (snd (run orc root_agent w))) \<and> n \<noteq> ''verdict_writer''"
  let ?ts = "[Tool_append_to_state]"
  obtain x t where att: "attempt orc (nat 2) (clock w) = (x, t)"
    by (cases "attempt orc (nat 2) (clock w)")
  show "files (fst (snd (run orc root_agent w))) = files w"
  proof (cases x)
    case ReasoningFailed
    with att show ?thesis by (simp add: root_agent_def)
  next
    case (Acts cs hand)
    obtain w1 ev where rc: "run_calls ''inquiry_clerk'' ?ts cs (w\<lparr>clock := t\<rparr>) = (w1, ev)"
      by (cases "run_calls ''inquiry_clerk'' ?ts cs (w\<lparr>clock := t\<rparr>)")
    have f1: "files w1 = files w"
      using run_calls_files_unchanged[of ?ts "''inquiry_clerk''" cs "w\<lparr>clock := t\<rparr>"] rc
      by simp
    have ev: "AgentFailed n \<notin> set ev"
      using run_calls_events[of "AgentFailed n" "''inquiry_clerk''" ?ts cs "w\<lparr>clock := t\<rparr>"] rc
      by auto
    show ?thesis
    proof (cases hand)
      case False
      with att Acts rc f1 show ?thesis by (simp add: root_agent_def)
    next
      case True
      have run_eq: "run orc root_agent w =
          (fst (run orc historical_court w1), fst (snd (run orc historical_court w1)),
           ev @ snd (snd (run orc historical_court w1)))"
        using att Acts rc True
        by (cases "run orc historical_court w1"; cases "fst (run orc historical_court w1)")
           (simp_all add: root_agent_def)
      with a ev have "AgentFailed n \<in> set (snd (snd (run orc historical_court w1)))"
        by simp
      from court_failure_no_file[OF this] a f1 run_eq show ?thesis by simp
    qed
  qed
qed

theorem no_report_file_after_upstream_failure_witness:
  "AgentFailed ''critic_researcher''
     \<in> set (snd (snd (run (\<lambda>t. if t = 2 \<or> t = 3 then ReasoningFailed else Acts [] True)
                        root_agent initial_world)))
   \<and> files (fst (snd (run (\<lambda>t. if t = 2 \<or> t = 3 then ReasoningFailed else Acts [] True)
                        root_agent initial_world)))
     = files initial_world"
proof -
  let ?b = "\<lambda>t::nat. if t = 2 \<or> t = 3 then ReasoningFailed else Acts [] True"
  have f: "AgentFailed ''critic_researcher''
             \<in> set (snd (snd (run ?b root_agent initial_world)))"
    by code_simp
  with no_report_file_after_upstream_failure
         [of "''critic_researcher''" ?b initial_world]
  show ?thesis by simp
qed

end
